theory Spec2Isabelle
  imports Main "HOL-Library.Extended_Nat"
begin

section \<open>Grid model (script.js, global state and grid creation)\<close>

text \<open>
  A cell object of \<^verbatim>\<open>gridArray\<close> is identified with its coordinates \<open>(r, c)\<close>:
  \<^verbatim>\<open>createGrid\<close> stores at \<^verbatim>\<open>gridArray[r][c]\<close> the object whose fields \<^verbatim>\<open>r\<close>,
  \<^verbatim>\<open>c\<close> are these indices, so a reference to a cell is a position. Coordinates are
  JavaScript numbers holding integers; they are modelled as \<open>int\<close> so that the checks
  \<^verbatim>\<open>r >= 0\<close>, \<^verbatim>\<open>r > 0\<close> of the source are real checks.
\<close>

type_synonym pos = "int \<times> int"

text \<open>
  The fields of a cell that the algorithms read or write. \<^verbatim>\<open>Infinity\<close> is \<open>\<infinity>\<close> of
  \<open>enat\<close>. The fields \<^verbatim>\<open>element\<close> (DOM node) and \<^verbatim>\<open>distance\<close> (only ever reset) are
  never read by the functions below and are left out.
\<close>

record cell =
  isWall :: bool
  isVisited :: bool
  previousNode :: "pos option"
  gCost :: enat
  fCost :: enat

datatype tool = Pointer | Pencil | Eraser

datatype node_kind = StartNode | EndNode

text \<open>
  The global variables. \<^verbatim>\<open>gridArray\<close> is a store from positions to cells;
  \<^verbatim>\<open>createGrid\<close> allocates exactly the cells with \<open>0 \<le> r < ROWS\<close> and
  \<open>0 \<le> c < COLS\<close>, and reading any other index is the \<^verbatim>\<open>TypeError\<close> of
  \<^verbatim>\<open>undefined[c]\<close> or \<^verbatim>\<open>undefined.isWall\<close>, which the functions that index the
  grid with computed coordinates return as an error value.
\<close>

record state =
  ROWS :: int
  COLS :: int
  gridArray :: "pos \<Rightarrow> cell"
  isMousePressed :: bool
  isRunning :: bool
  currentTool :: tool
  draggingNode :: "node_kind option"
  startPos :: pos
  endPos :: pos

datatype error = TypeError

definition in_grid :: "state \<Rightarrow> pos \<Rightarrow> bool" where
  "in_grid g p = (0 \<le> fst p \<and> fst p < ROWS g \<and> 0 \<le> snd p \<and> snd p < COLS g)"

definition wall :: "state \<Rightarrow> pos \<Rightarrow> bool" where
  "wall g p = isWall (gridArray g p)"

definition visited :: "state \<Rightarrow> pos \<Rightarrow> bool" where
  "visited g p = isVisited (gridArray g p)"

definition prev :: "state \<Rightarrow> pos \<Rightarrow> pos option" where
  "prev g p = previousNode (gridArray g p)"

definition gcost :: "state \<Rightarrow> pos \<Rightarrow> enat" where
  "gcost g p = gCost (gridArray g p)"

definition fcost :: "state \<Rightarrow> pos \<Rightarrow> enat" where
  "fcost g p = fCost (gridArray g p)"

definition update_cell :: "pos \<Rightarrow> (cell \<Rightarrow> cell) \<Rightarrow> state \<Rightarrow> state" where
  "update_cell p f g = g\<lparr>gridArray := (gridArray g)(p := f (gridArray g p))\<rparr>"

text \<open>The cells of the grid: a finite set.\<close>

definition cells :: "state \<Rightarrow> pos set" where
  "cells g = {p. in_grid g p}"

lemma cells_eq: "cells g = {0..<ROWS g} \<times> {0..<COLS g}"
  by (auto simp: cells_def in_grid_def)

lemma finite_cells [simp]: "finite (cells g)"
  by (simp add: cells_eq)

subsection \<open>getNeighbors\<close>

text \<open>
  \<^verbatim>\<open>
  if (r > 0) neighbors.push(gridArray[r - 1][c]); // Up
  if (c < COLS - 1) neighbors.push(gridArray[r][c + 1]); // Right
  if (r < ROWS - 1) neighbors.push(gridArray[r + 1][c]); // Down
  if (c > 0) neighbors.push(gridArray[r][c - 1]); // Left
  \<close>
\<close>

definition getNeighbors :: "state \<Rightarrow> pos \<Rightarrow> pos list" where
  "getNeighbors g node =
     (let r = fst node; c = snd node in
        (if r > 0 then [(r - 1, c)] else []) @
        (if c < COLS g - 1 then [(r, c + 1)] else []) @
        (if r < ROWS g - 1 then [(r + 1, c)] else []) @
        (if c > 0 then [(r, c - 1)] else []))"

section \<open>Grid creation and editing\<close>

text \<open>
  \<^verbatim>\<open>createGrid\<close> rebuilds every cell: no wall, not visited, no predecessor, infinite
  costs.
\<close>

definition blank :: cell where
  "blank = \<lparr>isWall = False, isVisited = False, previousNode = None, gCost = \<infinity>, fCost = \<infinity>\<rparr>"

definition createGrid :: "state \<Rightarrow> state" where
  "createGrid g = g\<lparr>gridArray := (\<lambda>p. blank)\<rparr>"

text \<open>
  \<^verbatim>\<open>calculateGridSize\<close>. The two parameters are the values of
  \<^verbatim>\<open>Math.floor(maxWidth / CELL_SIZE)\<close> and \<^verbatim>\<open>Math.floor(height / CELL_SIZE)\<close>, which
  depend on the window only.
  \<^verbatim>\<open>
  if (ROWS < 5) ROWS = 5;
  if (COLS < 5) COLS = 5;
  startPos = { r: Math.min(startPos.r, ROWS - 1), c: Math.min(startPos.c, COLS - 1) };
  endPos = { r: Math.min(endPos.r, ROWS - 1), c: Math.min(endPos.c, COLS - 1) };
  createGrid();
  \<close>
\<close>

definition calculateGridSize :: "int \<Rightarrow> int \<Rightarrow> state \<Rightarrow> state" where
  "calculateGridSize cols0 rows0 g =
     (let rows = (if rows0 < 5 then 5 else rows0);
          cols = (if cols0 < 5 then 5 else cols0)
      in createGrid
           (g\<lparr>ROWS := rows, COLS := cols,
              startPos := (min (fst (startPos g)) (rows - 1), min (snd (startPos g)) (cols - 1)),
              endPos := (min (fst (endPos g)) (rows - 1), min (snd (endPos g)) (cols - 1))\<rparr>))"

text \<open>
  The globals as the script declares them, before its last line \<^verbatim>\<open>calculateGridSize()\<close>
  has run: \<^verbatim>\<open>ROWS = 15, COLS = 30, startPos = {r: 5, c: 5}, endPos = {r: 5, c: 25}\<close>.
  \<^verbatim>\<open>gridArray = []\<close> holds no cell yet; the store is replaced by the first
  \<^verbatim>\<open>createGrid\<close>.
\<close>

definition script_start :: state where
  "script_start =
     \<lparr>ROWS = 15, COLS = 30, gridArray = (\<lambda>p. blank),
      isMousePressed = False, isRunning = False, currentTool = Pointer,
      draggingNode = None, startPos = (5, 5), endPos = (5, 25)\<rparr>"

definition isStartOrEnd :: "state \<Rightarrow> int \<Rightarrow> int \<Rightarrow> bool" where
  "isStartOrEnd g r c =
     ((r = fst (startPos g) \<and> c = snd (startPos g)) \<or> (r = fst (endPos g) \<and> c = snd (endPos g)))"

text \<open>
  \<^verbatim>\<open>
  function addWall(r, c, state) {
    if (isStartOrEnd(r, c)) return;
    const node = gridArray[r][c];
    node.isWall = state; ...
  }
  \<close>
  Outside the grid \<^verbatim>\<open>gridArray[r]\<close> or \<^verbatim>\<open>node\<close> is \<^verbatim>\<open>undefined\<close> and the function
  throws.
\<close>

definition addWall :: "int \<Rightarrow> int \<Rightarrow> bool \<Rightarrow> state \<Rightarrow> error + state" where
  "addWall r c st g =
     (if isStartOrEnd g r c then Inr g
      else if \<not> in_grid g (r, c) then Inl TypeError
      else Inr (update_cell (r, c) (\<lambda>x. x\<lparr>isWall := st\<rparr>) g))"

definition use_tool :: "int \<Rightarrow> int \<Rightarrow> state \<Rightarrow> error + state" where
  "use_tool r c g =
     (if currentTool g = Pencil then addWall r c True g
      else if currentTool g = Eraser then addWall r c False g
      else Inr g)"

definition handleMouseDown :: "int \<Rightarrow> int \<Rightarrow> state \<Rightarrow> error + state" where
  "handleMouseDown r c g =
     (if isRunning g then Inr g
      else let g1 = g\<lparr>isMousePressed := True\<rparr> in
        if r = fst (startPos g1) \<and> c = snd (startPos g1) then Inr (g1\<lparr>draggingNode := Some StartNode\<rparr>)
        else if r = fst (endPos g1) \<and> c = snd (endPos g1) then Inr (g1\<lparr>draggingNode := Some EndNode\<rparr>)
        else use_tool r c g1)"

text \<open>
  \<^verbatim>\<open>
  if (draggingNode === "start") {
    if ((r !== endPos.r || c !== endPos.c) && !gridArray[r][c].isWall) {
      startPos = { r, c }; updateSpecialNodes();
    }
    return;
  }
  \<close>
  and the same for \<^verbatim>\<open>"end"\<close>; the cell is read only when the first conjunct holds.
\<close>

definition handleMouseEnter :: "int \<Rightarrow> int \<Rightarrow> state \<Rightarrow> error + state" where
  "handleMouseEnter r c g =
     (if \<not> isMousePressed g \<or> isRunning g then Inr g
      else if draggingNode g = Some StartNode then
        (if r \<noteq> fst (endPos g) \<or> c \<noteq> snd (endPos g) then
           (if \<not> in_grid g (r, c) then Inl TypeError
            else if \<not> wall g (r, c) then Inr (g\<lparr>startPos := (r, c)\<rparr>) else Inr g)
         else Inr g)
      else if draggingNode g = Some EndNode then
        (if r \<noteq> fst (startPos g) \<or> c \<noteq> snd (startPos g) then
           (if \<not> in_grid g (r, c) then Inl TypeError
            else if \<not> wall g (r, c) then Inr (g\<lparr>endPos := (r, c)\<rparr>) else Inr g)
         else Inr g)
      else use_tool r c g)"

definition handleMouseUp :: "state \<Rightarrow> state" where
  "handleMouseUp g = g\<lparr>isMousePressed := False, draggingNode := None\<rparr>"

definition setTool :: "tool \<Rightarrow> state \<Rightarrow> state" where
  "setTool t g = g\<lparr>currentTool := t\<rparr>"

text \<open>\<^verbatim>\<open>resetVisuals\<close> clears the per-run fields of every cell and keeps the walls.\<close>

definition resetVisuals :: "state \<Rightarrow> state" where
  "resetVisuals g =
     g\<lparr>gridArray := (\<lambda>p. (gridArray g p)\<lparr>isVisited := False, gCost := \<infinity>, fCost := \<infinity>,
                                          previousNode := None\<rparr>)\<rparr>"

definition resetBoard :: "state \<Rightarrow> state" where
  "resetBoard g =
     (if isRunning g then g
      else let g1 = resetVisuals g in
        g1\<lparr>gridArray := (\<lambda>p. (gridArray g1 p)\<lparr>isWall := False\<rparr>)\<rparr>)"

section \<open>Maze and pattern generation\<close>

text \<open>
  The random source. \<^verbatim>\<open>Math.random()\<close> lies in \<open>[0, 1)\<close>, so
  \<^verbatim>\<open>Math.floor(Math.random() * n)\<close> is some integer of \<open>0..n - 1\<close> when \<open>n \<ge> 1\<close>
  (and of \<open>n..0\<close> when \<open>n \<le> 0\<close>, which no caller asks for). A seed is a list of
  naturals; each draw consumes one and reduces it into the range, and an exhausted list
  draws 0.
\<close>

type_synonym rng = "nat list"

definition random_below :: "int \<Rightarrow> rng \<Rightarrow> int \<times> rng" where
  "random_below n rng =
     (case rng of
        [] \<Rightarrow> (0, [])
      | k # rest \<Rightarrow> (if 0 < n then int k mod n else - (int k mod (1 - n)), rest))"

text \<open>
  A \<^verbatim>\<open>for\<close> loop over a list of indices whose body may throw: the first error ends
  the loop.
\<close>

fun for_each :: "'a list \<Rightarrow> ('a \<Rightarrow> state \<Rightarrow> error + state) \<Rightarrow> state \<Rightarrow> error + state" where
  "for_each [] body g = Inr g"
| "for_each (x # xs) body g =
     (case body x g of Inl e \<Rightarrow> Inl e | Inr g' \<Rightarrow> for_each xs body g')"

text \<open>\<^verbatim>\<open>if (!isStartOrEnd(r, c)) addWall(r, c, true);\<close>\<close>

definition wall_unless_special :: "int \<Rightarrow> int \<Rightarrow> state \<Rightarrow> error + state" where
  "wall_unless_special r c g = (if \<not> isStartOrEnd g r c then addWall r c True g else Inr g)"

lemma random_below_range: "0 < n \<Longrightarrow> random_below n rng = (k, rng') \<Longrightarrow> 0 \<le> k \<and> k < n"
  by (auto simp: random_below_def split: list.splits)

subsection \<open>recursiveDivision\<close>

text \<open>
  \<^verbatim>\<open>
  if (rEnd - rStart < 2 || cEnd - cStart < 2) return;
  const orientation = rEnd - rStart > cEnd - cStart ? "H" : "V";
  if (orientation === "H") {
    const wallR = Math.floor(Math.random() * (rEnd - rStart - 1)) + rStart + 1;
    const gapC = Math.floor(Math.random() * (cEnd - cStart + 1)) + cStart;
    for (let c = cStart; c <= cEnd; c++)
      if (c !== gapC && !isStartOrEnd(wallR, c)) addWall(wallR, c, true);
    recursiveDivision(rStart, wallR - 1, cStart, cEnd);
    recursiveDivision(wallR + 1, rEnd, cStart, cEnd);
  } else { ... the same with rows and columns exchanged ... }
  \<close>
\<close>

function recursiveDivision ::
  "int \<Rightarrow> int \<Rightarrow> int \<Rightarrow> int \<Rightarrow> rng \<Rightarrow> state \<Rightarrow> error + (state \<times> rng)" where
  "recursiveDivision rStart rEnd cStart cEnd rng g =
     (if rEnd - rStart < 2 \<or> cEnd - cStart < 2 then Inr (g, rng)
      else if rEnd - rStart > cEnd - cStart then
        (case random_below (rEnd - rStart - 1) rng of (k1, rng1) \<Rightarrow>
          (case random_below (cEnd - cStart + 1) rng1 of (k2, rng2) \<Rightarrow>
            (let wallR = k1 + rStart + 1; gapC = k2 + cStart in
              (case for_each [cStart..cEnd]
                      (\<lambda>c g. if c \<noteq> gapC \<and> \<not> isStartOrEnd g wallR c
                              then addWall wallR c True g else Inr g) g of
                 Inl e \<Rightarrow> Inl e
               | Inr g1 \<Rightarrow>
                   (case recursiveDivision rStart (wallR - 1) cStart cEnd rng2 g1 of
                      Inl e \<Rightarrow> Inl e
                    | Inr (g2, rng3) \<Rightarrow>
                        recursiveDivision (wallR + 1) rEnd cStart cEnd rng3 g2)))))
      else
        (case random_below (cEnd - cStart - 1) rng of (k1, rng1) \<Rightarrow>
          (case random_below (rEnd - rStart + 1) rng1 of (k2, rng2) \<Rightarrow>
            (let wallC = k1 + cStart + 1; gapR = k2 + rStart in
              (case for_each [rStart..rEnd]
                      (\<lambda>r g. if r \<noteq> gapR \<and> \<not> isStartOrEnd g r wallC
                              then addWall r wallC True g else Inr g) g of
                 Inl e \<Rightarrow> Inl e
               | Inr g1 \<Rightarrow>
                   (case recursiveDivision rStart rEnd cStart (wallC - 1) rng2 g1 of
                      Inl e \<Rightarrow> Inl e
                    | Inr (g2, rng3) \<Rightarrow>
                        recursiveDivision rStart rEnd (wallC + 1) cEnd rng3 g2))))))"
  by pat_completeness auto
termination
proof (relation "measure (\<lambda>(rStart, rEnd, cStart, cEnd, rng, g). nat (rEnd - rStart) + nat (cEnd - cStart))", goal_cases)
  case 1
  then show ?case by simp
next
  case (2 rStart rEnd cStart cEnd rng g x1 x2 x y xa xb x2a)
  then show ?case using random_below_range[of "rEnd - rStart - 1" rng x1 x2] by auto
next
  case (3 rStart rEnd cStart cEnd rng g x1 x2 x y xa xb x2a x2b xc ya)
  then show ?case using random_below_range[of "rEnd - rStart - 1" rng x1 x2] by auto
next
  case (4 rStart rEnd cStart cEnd rng g x1 x2 x y xa xb x2a)
  then show ?case using random_below_range[of "cEnd - cStart - 1" rng x1 x2] by auto
next
  case (5 rStart rEnd cStart cEnd rng g x1 x2 x y xa xb x2a x2b xc ya)
  then show ?case using random_below_range[of "cEnd - cStart - 1" rng x1 x2] by auto
qed


subsection \<open>generateSpiralPattern\<close>

text \<open>
  One iteration of the \<^verbatim>\<open>while (rStart <= rEnd && cStart <= cEnd)\<close> loop: top edge,
  \<^verbatim>\<open>rStart += 2\<close>, right edge from \<^verbatim>\<open>rStart - 2\<close>, \<^verbatim>\<open>cEnd -= 2\<close>, then the bottom
  edge from \<^verbatim>\<open>cEnd + 2\<close> down to \<^verbatim>\<open>cStart\<close> and \<^verbatim>\<open>rEnd -= 2\<close> if
  \<^verbatim>\<open>rStart <= rEnd\<close>, then the left edge from \<^verbatim>\<open>rEnd + 2\<close> down to \<^verbatim>\<open>rStart\<close> and
  \<^verbatim>\<open>cStart += 2\<close> if \<^verbatim>\<open>cStart <= cEnd\<close>.
\<close>

function spiral_loop :: "int \<Rightarrow> int \<Rightarrow> int \<Rightarrow> int \<Rightarrow> state \<Rightarrow> error + state" where
  "spiral_loop rStart rEnd cStart cEnd g =
     (if rStart \<le> rEnd \<and> cStart \<le> cEnd then
        (case for_each [cStart..cEnd] (\<lambda>c. wall_unless_special rStart c) g of
           Inl e \<Rightarrow> Inl e
         | Inr g1 \<Rightarrow>
        (let rStart1 = rStart + 2 in
        (case for_each [rStart1 - 2..rEnd] (\<lambda>r. wall_unless_special r cEnd) g1 of
           Inl e \<Rightarrow> Inl e
         | Inr g2 \<Rightarrow>
        (let cEnd1 = cEnd - 2 in
        (case (if rStart1 \<le> rEnd
               then for_each (rev [cStart..cEnd1 + 2]) (\<lambda>c. wall_unless_special rEnd c) g2
               else Inr g2) of
           Inl e \<Rightarrow> Inl e
         | Inr g3 \<Rightarrow>
        (let rEnd1 = (if rStart1 \<le> rEnd then rEnd - 2 else rEnd) in
        (case (if cStart \<le> cEnd1
               then for_each (rev [rStart1..rEnd1 + 2]) (\<lambda>r. wall_unless_special r cStart) g3
               else Inr g3) of
           Inl e \<Rightarrow> Inl e
         | Inr g4 \<Rightarrow>
        (let cStart1 = (if cStart \<le> cEnd1 then cStart + 2 else cStart) in
         spiral_loop rStart1 rEnd1 cStart1 cEnd1 g4))))))))
      else Inr g)"
  by pat_completeness auto
termination
  by (relation "measure (\<lambda>(rStart, rEnd, cStart, cEnd, g). nat (rEnd - rStart + 1))") auto

text \<open>
  \<^verbatim>\<open>clearNeighbors\<close>: the directions \<^verbatim>\<open>[0, 1], [0, -1], [1, 0], [-1, 0]\<close>, each
  checked against the bounds before \<^verbatim>\<open>addWall(r, c, false)\<close>.
\<close>

definition clearNeighbors :: "pos \<Rightarrow> state \<Rightarrow> error + state" where
  "clearNeighbors p g =
     for_each [(0, 1), (0, - 1), (1, 0), (- 1, 0)]
       (\<lambda>(dr, dc) g. let r = fst p + dr; c = snd p + dc in
          if r \<ge> 0 \<and> r < ROWS g \<and> c \<ge> 0 \<and> c < COLS g then addWall r c False g else Inr g) g"

definition generateSpiralPattern :: "state \<Rightarrow> error + state" where
  "generateSpiralPattern g =
     (case spiral_loop 1 (ROWS g - 2) 1 (COLS g - 2) g of
        Inl e \<Rightarrow> Inl e
      | Inr g1 \<Rightarrow>
          (case clearNeighbors (startPos g1) g1 of
             Inl e \<Rightarrow> Inl e
           | Inr g2 \<Rightarrow> clearNeighbors (endPos g2) g2))"

subsection \<open>generateDFSMaze\<close>

text \<open>
  \<^verbatim>\<open>getMazeNeighbors\<close>: the cells two steps away in the order
  \<^verbatim>\<open>[0, -2], [0, 2], [-2, 0], [2, 0]\<close> that lie in the grid and are not in
  \<^verbatim>\<open>visited\<close>. The \<^verbatim>\<open>Set\<close> of keys \<^verbatim>\<open>`${r},${c}`\<close> is a set of positions.
\<close>

definition getMazeNeighbors :: "state \<Rightarrow> int \<Rightarrow> int \<Rightarrow> pos set \<Rightarrow> pos list" where
  "getMazeNeighbors g r c visitedS =
     filter (\<lambda>(nr, nc). nr \<ge> 0 \<and> nr < ROWS g \<and> nc \<ge> 0 \<and> nc < COLS g \<and> (nr, nc) \<notin> visitedS)
       (map (\<lambda>(dr, dc). (r + dr, c + dc)) [(0, - 2), (0, 2), (- 2, 0), (2, 0)])"

lemma addWall_size: "addWall r c st g = Inr g' \<Longrightarrow> ROWS g' = ROWS g \<and> COLS g' = COLS g"
  by (auto simp: addWall_def update_cell_def split: if_splits)

lemma cells_same_size: "ROWS g' = ROWS g \<Longrightarrow> COLS g' = COLS g \<Longrightarrow> cells g' = cells g"
  by (simp add: cells_eq)

lemma getMazeNeighbors_fresh:
  "n \<in> set (getMazeNeighbors g r c V) \<Longrightarrow> n \<in> cells g - V"
  by (cases n) (auto simp add: getMazeNeighbors_def cells_def in_grid_def simp del: filter.simps)

lemma maze_step_decreases:
  assumes "ns = getMazeNeighbors g r c V" and "ns \<noteq> []"
    and "(k, rng1) = random_below (int (length ns)) rng" and "nxt = ns ! nat k"
    and "addWall a b False g = Inr g1" and "addWall a' b' False g1 = Inr g2"
  shows "card (cells g2 - insert nxt V) < card (cells g - V)"
proof -
  have len: "0 < int (length ns)" using assms(2) by simp
  from random_below_range[OF len assms(3)[symmetric]] have "nat k < length ns" by auto
  then have "nxt \<in> set (getMazeNeighbors g r c V)" using assms(1,4) by simp
  then have nx: "nxt \<in> cells g - V" by (rule getMazeNeighbors_fresh)
  have "cells g2 = cells g"
    using addWall_size[OF assms(5)] addWall_size[OF assms(6)]
    by (intro cells_same_size) auto
  moreover have "card (cells g - insert nxt V) < card (cells g - V)"
    using nx by (intro psubset_card_mono) auto
  ultimately show ?thesis by simp
qed

text \<open>
  The \<^verbatim>\<open>while (stack.length > 0)\<close> loop. \<^verbatim>\<open>(curr.r + next.r) / 2\<close> is exact:
  \<^verbatim>\<open>next\<close> differs from \<^verbatim>\<open>curr\<close> by 2 in one coordinate and by 0 in the other.
\<close>

function maze_loop :: "pos list \<Rightarrow> pos set \<Rightarrow> rng \<Rightarrow> state \<Rightarrow> error + (state \<times> rng)" where
  "maze_loop stack visitedS rng g =
     (if stack = [] then Inr (g, rng)
      else
        (let cur = last stack; stack1 = butlast stack;
             neighbors = getMazeNeighbors g (fst cur) (snd cur) visitedS
         in if neighbors \<noteq> [] then
              (case random_below (int (length neighbors)) rng of (k, rng1) \<Rightarrow>
                (let next = neighbors ! nat k;
                     wallR = (fst cur + fst next) div 2;
                     wallC = (snd cur + snd next) div 2
                 in (case addWall wallR wallC False g of
                       Inl e \<Rightarrow> Inl e
                     | Inr g1 \<Rightarrow>
                         (case addWall (fst next) (snd next) False g1 of
                            Inl e \<Rightarrow> Inl e
                          | Inr g2 \<Rightarrow>
                              maze_loop (stack1 @ [cur] @ [next]) (insert next visitedS) rng1 g2))))
            else maze_loop stack1 visitedS rng g))"
  by pat_completeness auto
termination
proof (relation "measures [\<lambda>(stack, V, rng, g). card (cells g - V), \<lambda>(stack, V, rng, g). length stack]", goal_cases)
  case 1
  show ?case by simp
next
  case 2
  from maze_step_decreases[OF 2(4) 2(5) 2(6) 2(7) 2(10) 2(11)] show ?case by simp
next
  case 3
  then show ?case by (auto simp: Let_def)
qed

definition generateDFSMaze :: "rng \<Rightarrow> state \<Rightarrow> error + (state \<times> rng)" where
  "generateDFSMaze rng g =
     (case for_each [0..ROWS g - 1]
             (\<lambda>r. for_each [0..COLS g - 1] (\<lambda>c. wall_unless_special r c)) g of
        Inl e \<Rightarrow> Inl e
      | Inr g1 \<Rightarrow>
          (case maze_loop [startPos g1] {startPos g1} rng g1 of
             Inl e \<Rightarrow> Inl e
           | Inr (g2, rng1) \<Rightarrow>
               (case addWall (fst (startPos g2)) (snd (startPos g2)) False g2 of
                  Inl e \<Rightarrow> Inl e
                | Inr g3 \<Rightarrow>
                    (case addWall (fst (endPos g3)) (snd (endPos g3)) False g3 of
                       Inl e \<Rightarrow> Inl e
                     | Inr g4 \<Rightarrow> Inr (g4, rng1)))))"

subsection \<open>handleMazeGen\<close>

text \<open>
  The value of \<^verbatim>\<open>mazeSelect\<close>: empty (\<open>None\<close>, nothing happens) or one of
  \<^verbatim>\<open>"random"\<close>, \<^verbatim>\<open>"spiral"\<close>, \<^verbatim>\<open>"recursive"\<close>.
\<close>

datatype maze_type = RandomMaze | Spiral | Recursive

definition handleMazeGen :: "maze_type option \<Rightarrow> rng \<Rightarrow> state \<Rightarrow> error + (state \<times> rng)" where
  "handleMazeGen type rng g =
     (if isRunning g then Inr (g, rng)
      else case type of
             None \<Rightarrow> Inr (g, rng)
           | Some t \<Rightarrow>
               let g1 = resetBoard g in
               (case t of
                  RandomMaze \<Rightarrow> generateDFSMaze rng g1
                | Spiral \<Rightarrow>
                    (case generateSpiralPattern g1 of Inl e \<Rightarrow> Inl e | Inr g2 \<Rightarrow> Inr (g2, rng))
                | Recursive \<Rightarrow> recursiveDivision 1 (ROWS g1 - 2) 1 (COLS g1 - 2) rng g1))"

section \<open>Search engine (bfs, dfs, astar)\<close>

text \<open>
  Every search returns its visitation trace. The model also returns the grid after the
  run (the searches mutate the cells in place) and which of the two \<^verbatim>\<open>return\<close>
  statements of the loop produced the trace: the early return at
  \<^verbatim>\<open>if (current === end)\<close> or the final return after the frontier has emptied.
  The loops are \<open>partial_function\<close>s in the option monad: \<open>None\<close> is a loop that runs
  forever.
\<close>

datatype exit_kind = ReachedEnd | FrontierEmpty

subsection \<open>bfs\<close>

text \<open>
  \<^verbatim>\<open>
  for (const n of neighbors) {
    if (!n.isVisited && !n.isWall) {
      n.isVisited = true; n.previousNode = current; queue.push(n);
    }
  }
  \<close>
\<close>

fun bfs_neighbors :: "pos \<Rightarrow> pos list \<Rightarrow> state \<Rightarrow> pos list \<Rightarrow> state \<times> pos list" where
  "bfs_neighbors current [] g queue = (g, queue)"
| "bfs_neighbors current (n # ns) g queue =
     (if \<not> visited g n \<and> \<not> wall g n
      then bfs_neighbors current ns
             (update_cell n (\<lambda>x. x\<lparr>isVisited := True, previousNode := Some current\<rparr>) g)
             (queue @ [n])
      else bfs_neighbors current ns g queue)"

text \<open>
  \<^verbatim>\<open>
  while (queue.length) {
    const current = queue.shift();
    visitedOrder.push(current);
    if (current === end) return visitedOrder;
    const neighbors = getNeighbors(current);
    for (const n of neighbors) ...
  }
  return visitedOrder;
  \<close>
\<close>

partial_function (option) bfs_loop ::
  "pos \<Rightarrow> state \<Rightarrow> pos list \<Rightarrow> pos list \<Rightarrow> (pos list \<times> exit_kind \<times> state) option" where
  "bfs_loop endNode g queue visitedOrder =
     (case queue of
        [] \<Rightarrow> Some (visitedOrder, FrontierEmpty, g)
      | current # rest \<Rightarrow>
          if current = endNode then Some (visitedOrder @ [current], ReachedEnd, g)
          else case bfs_neighbors current (getNeighbors g current) g rest of
                 (g', queue') \<Rightarrow> bfs_loop endNode g' queue' (visitedOrder @ [current]))"

declare bfs_loop.simps [code]

definition bfs :: "state \<Rightarrow> pos \<Rightarrow> pos \<Rightarrow> (pos list \<times> exit_kind \<times> state) option" where
  "bfs g start endNode =
     bfs_loop endNode (update_cell start (\<lambda>x. x\<lparr>isVisited := True\<rparr>) g) [start] []"

subsection \<open>dfs\<close>

text \<open>The stack is a JavaScript array: \<^verbatim>\<open>push\<close> appends, \<^verbatim>\<open>pop\<close> removes the last element.\<close>

fun dfs_neighbors :: "pos \<Rightarrow> pos list \<Rightarrow> state \<Rightarrow> pos list \<Rightarrow> state \<times> pos list" where
  "dfs_neighbors current [] g stack = (g, stack)"
| "dfs_neighbors current (n # ns) g stack =
     (if \<not> visited g n \<and> \<not> wall g n
      then dfs_neighbors current ns
             (update_cell n (\<lambda>x. x\<lparr>isVisited := True, previousNode := Some current\<rparr>) g)
             (stack @ [n])
      else dfs_neighbors current ns g stack)"

partial_function (option) dfs_loop ::
  "pos \<Rightarrow> state \<Rightarrow> pos list \<Rightarrow> pos list \<Rightarrow> (pos list \<times> exit_kind \<times> state) option" where
  "dfs_loop endNode g stack visitedL =
     (if stack = [] then Some (visitedL, FrontierEmpty, g)
      else let current = last stack; rest = butlast stack in
        if current = endNode then Some (visitedL @ [current], ReachedEnd, g)
        else case dfs_neighbors current (getNeighbors g current) g rest of
               (g', stack') \<Rightarrow> dfs_loop endNode g' stack' (visitedL @ [current]))"

declare dfs_loop.simps [code]

definition dfs :: "state \<Rightarrow> pos \<Rightarrow> pos \<Rightarrow> (pos list \<times> exit_kind \<times> state) option" where
  "dfs g start endNode =
     dfs_loop endNode (update_cell start (\<lambda>x. x\<lparr>isVisited := True\<rparr>) g) [start] []"

subsection \<open>astar\<close>

text \<open>\<^verbatim>\<open>Math.abs(a.r - b.r) + Math.abs(a.c - b.c)\<close>\<close>

definition heuristic :: "pos \<Rightarrow> pos \<Rightarrow> nat" where
  "heuristic a b = nat (\<bar>fst a - fst b\<bar> + \<bar>snd a - snd b\<bar>)"

text \<open>
  \<^verbatim>\<open>
  for (const n of neighbors) {
    if (n.isWall || n.isVisited) continue;
    const tentativeG = current.gCost + 1;
    if (tentativeG < n.gCost) {
      n.previousNode = current; n.gCost = tentativeG;
      n.fCost = tentativeG + heuristic(n, end);
      if (!openSet.includes(n)) openSet.push(n);
    }
  }
  \<close>
\<close>

fun astar_neighbors ::
  "pos \<Rightarrow> pos \<Rightarrow> pos list \<Rightarrow> state \<Rightarrow> pos list \<Rightarrow> state \<times> pos list" where
  "astar_neighbors endNode current [] g openSet = (g, openSet)"
| "astar_neighbors endNode current (n # ns) g openSet =
     (if wall g n \<or> visited g n then astar_neighbors endNode current ns g openSet
      else let tentativeG = gcost g current + 1 in
        if tentativeG < gcost g n
        then astar_neighbors endNode current ns
               (update_cell n (\<lambda>x. x\<lparr>previousNode := Some current, gCost := tentativeG,
                   fCost := tentativeG + enat (heuristic n endNode)\<rparr>) g)
               (if n \<in> set openSet then openSet else openSet @ [n])
        else astar_neighbors endNode current ns g openSet)"

text \<open>
  \<^verbatim>\<open>openSet.sort((a, b) => a.fCost - b.fCost)\<close> is a stable sort by \<^verbatim>\<open>fCost\<close>
  (\<open>sort_key\<close> is stable as well), and \<^verbatim>\<open>shift\<close> removes the first element. The
  sorted list is empty exactly when \<^verbatim>\<open>openSet.length\<close> is 0, the loop's exit.
\<close>

partial_function (option) astar_loop ::
  "pos \<Rightarrow> state \<Rightarrow> pos list \<Rightarrow> pos list \<Rightarrow> (pos list \<times> exit_kind \<times> state) option" where
  "astar_loop endNode g openSet visitedOrder =
     (case sort_key (fcost g) openSet of
        [] \<Rightarrow> Some (visitedOrder, FrontierEmpty, g)
      | current # rest \<Rightarrow>
          if visited g current then astar_loop endNode g rest visitedOrder
          else let g1 = update_cell current (\<lambda>x. x\<lparr>isVisited := True\<rparr>) g in
            if current = endNode then Some (visitedOrder @ [current], ReachedEnd, g1)
            else case astar_neighbors endNode current (getNeighbors g1 current) g1 rest of
                   (g2, openSet2) \<Rightarrow> astar_loop endNode g2 openSet2 (visitedOrder @ [current]))"

declare astar_loop.simps [code]

definition astar :: "state \<Rightarrow> pos \<Rightarrow> pos \<Rightarrow> (pos list \<times> exit_kind \<times> state) option" where
  "astar g start endNode =
     astar_loop endNode
       (update_cell start (\<lambda>x. x\<lparr>gCost := 0, fCost := enat (heuristic start endNode)\<rparr>) g)
       [start] []"

section \<open>Path reconstruction and results (animate, startVisualization)\<close>

text \<open>
  \<^verbatim>\<open>
  const path = []; let curr = endNode;
  while (curr) { path.unshift(curr); curr = curr.previousNode; }
  \<close>
\<close>

partial_function (option) reconstruct :: "state \<Rightarrow> pos option \<Rightarrow> pos list \<Rightarrow> pos list option" where
  "reconstruct g cur path =
     (case cur of None \<Rightarrow> Some path | Some p \<Rightarrow> reconstruct g (prev g p) (p # path))"

declare reconstruct.simps [code]

text \<open>
  The arguments \<^verbatim>\<open>animate\<close> passes to \<^verbatim>\<open>showResults\<close>:
  \<^verbatim>\<open>showResults(algo, visitedNodes.length, success ? path.length : 0, success)\<close>.
\<close>

record report =
  visitedCount :: nat
  pathLen :: nat
  success :: bool

definition animate :: "state \<Rightarrow> pos list \<Rightarrow> pos \<Rightarrow> report option" where
  "animate g visitedNodes endNode =
     (case reconstruct g (Some endNode) [] of
        None \<Rightarrow> None
      | Some path \<Rightarrow>
          let startNode = startPos g;
              ok = (length path \<ge> 1 \<and> hd path = startNode \<and> \<not> wall g endNode \<and> visited g endNode)
          in Some \<lparr>visitedCount = length visitedNodes,
                   pathLen = (if ok then length path else 0),
                   success = ok\<rparr>)"

datatype algo = BFS | DFS | AStar

definition search :: "algo \<Rightarrow> state \<Rightarrow> pos \<Rightarrow> pos \<Rightarrow> (pos list \<times> exit_kind \<times> state) option" where
  "search a g start endNode =
     (case a of BFS \<Rightarrow> bfs g start endNode
              | DFS \<Rightarrow> dfs g start endNode
              | AStar \<Rightarrow> astar g start endNode)"

text \<open>
  The body of the \<^verbatim>\<open>try\<close> block of \<^verbatim>\<open>startVisualization\<close>: reset, look up the start and
  end cells, search, animate. \<^verbatim>\<open>startPos\<close> and \<^verbatim>\<open>endPos\<close> are kept inside the grid by
  \<^verbatim>\<open>calculateGridSize\<close> and \<^verbatim>\<open>handleMouseEnter\<close>; for a position outside the grid
  the lookup \<^verbatim>\<open>gridArray[r][c]\<close> does not yield a cell, which is reported here as
  \<open>TypeError\<close>. The result is the trace, the exit taken, the report and the final grid.
\<close>

definition visualize ::
  "algo \<Rightarrow> state \<Rightarrow> (error + (pos list \<times> exit_kind \<times> report \<times> state)) option" where
  "visualize a g0 =
     (let g = resetVisuals g0; startNode = startPos g; endNode = endPos g in
      if \<not> in_grid g startNode \<or> \<not> in_grid g endNode then Some (Inl TypeError)
      else case search a g startNode endNode of
             None \<Rightarrow> None
           | Some (visitedNodes, ex, g') \<Rightarrow>
               (case animate g' visitedNodes endNode of
                  None \<Rightarrow> None
                | Some rep \<Rightarrow> Some (Inr (visitedNodes, ex, rep, g'))))"

section \<open>The event handlers as transitions\<close>

text \<open>
  \<^verbatim>\<open>startVisualization\<close> does nothing while a run is in progress; otherwise it sets
  \<^verbatim>\<open>isRunning\<close>, runs the body above and clears \<^verbatim>\<open>isRunning\<close> in its \<^verbatim>\<open>finally\<close>
  block. Every other handler returns at once while \<^verbatim>\<open>isRunning\<close> is set, so a run is one
  transition. \<open>Inl\<close> is an exception that the \<^verbatim>\<open>catch\<close> block logs.
\<close>

definition startVisualization :: "algo \<Rightarrow> state \<Rightarrow> (error + state) option" where
  "startVisualization a g =
     (if isRunning g then Some (Inr g)
      else case visualize a (g\<lparr>isRunning := True\<rparr>) of
             None \<Rightarrow> None
           | Some (Inl e) \<Rightarrow> Some (Inl e)
           | Some (Inr (visitedNodes, ex, rep, g')) \<Rightarrow> Some (Inr (g'\<lparr>isRunning := False\<rparr>)))"

text \<open>
  The events the script binds handlers to: the three mouse events of a cell, the tool
  buttons, the window's \<^verbatim>\<open>resize\<close> (with the two floor values of
  \<open>calculateGridSize\<close>), the reset button, the maze selector (with the random seed of
  the run) and the visualize button.
\<close>

datatype event =
    MouseDown int int | MouseEnter int int | MouseUp | SetTool tool
  | Resize int int | ResetBoard | MazeGen "maze_type option" rng | Visualize algo

fun step :: "event \<Rightarrow> state \<Rightarrow> (error + state) option" where
  "step (MouseDown r c) g = Some (handleMouseDown r c g)"
| "step (MouseEnter r c) g = Some (handleMouseEnter r c g)"
| "step MouseUp g = Some (Inr (handleMouseUp g))"
| "step (SetTool t) g = Some (Inr (setTool t g))"
| "step (Resize cols0 rows0) g = Some (Inr (if isRunning g then g else calculateGridSize cols0 rows0 g))"
| "step ResetBoard g = Some (Inr (resetBoard g))"
| "step (MazeGen t rng) g =
     Some (case handleMazeGen t rng g of Inl e \<Rightarrow> Inl e | Inr (g', rng') \<Rightarrow> Inr g')"
| "step (Visualize a) g = startVisualization a g"

text \<open>
  The states the page can be in: the script's last line runs \<^verbatim>\<open>calculateGridSize()\<close>
  on the declared globals, then events arrive.
\<close>

inductive reachable :: "state \<Rightarrow> bool" where
  init: "reachable (calculateGridSize cols0 rows0 script_start)"
| after: "reachable g \<Longrightarrow> step ev g = Some (Inr g') \<Longrightarrow> reachable g'"

section \<open>Properties\<close>

subsection \<open>Cell updates and the frame of the grid\<close>

lemma update_cell_globals [simp]:
  "ROWS (update_cell p f g) = ROWS g"
  "COLS (update_cell p f g) = COLS g"
  "startPos (update_cell p f g) = startPos g"
  "endPos (update_cell p f g) = endPos g"
  "isRunning (update_cell p f g) = isRunning g"
  "isMousePressed (update_cell p f g) = isMousePressed g"
  "currentTool (update_cell p f g) = currentTool g"
  "draggingNode (update_cell p f g) = draggingNode g"
  by (simp_all add: update_cell_def)

lemma gridArray_update_cell [simp]:
  "gridArray (update_cell p f g) q = (if q = p then f (gridArray g p) else gridArray g q)"
  by (simp add: update_cell_def)

lemma in_grid_update_cell [simp]: "in_grid (update_cell p f g) q = in_grid g q"
  by (simp add: in_grid_def)

lemma getNeighbors_update_cell [simp]: "getNeighbors (update_cell p f g) q = getNeighbors g q"
  by (simp add: getNeighbors_def)

lemma wall_update_cell [simp]:
  "wall (update_cell p f g) q = (if q = p then isWall (f (gridArray g p)) else wall g q)"
  by (simp add: wall_def)

lemma in_grid_same_size: "ROWS g' = ROWS g \<Longrightarrow> COLS g' = COLS g \<Longrightarrow> in_grid g' p = in_grid g p"
  by (simp add: in_grid_def)

lemma visited_update_cell [simp]:
  "visited (update_cell p f g) q = (if q = p then isVisited (f (gridArray g p)) else visited g q)"
  by (simp add: visited_def)

lemma prev_update_cell [simp]:
  "prev (update_cell p f g) q = (if q = p then previousNode (f (gridArray g p)) else prev g q)"
  by (simp add: prev_def)

lemma gcost_update_cell [simp]:
  "gcost (update_cell p f g) q = (if q = p then gCost (f (gridArray g p)) else gcost g q)"
  by (simp add: gcost_def)

lemma fcost_update_cell [simp]:
  "fcost (update_cell p f g) q = (if q = p then fCost (f (gridArray g p)) else fcost g q)"
  by (simp add: fcost_def)

lemma fold_accessors [simp]:
  "isWall (gridArray g p) = wall g p"
  "isVisited (gridArray g p) = visited g p"
  "previousNode (gridArray g p) = prev g p"
  "gCost (gridArray g p) = gcost g p"
  "fCost (gridArray g p) = fcost g p"
  by (simp_all add: wall_def visited_def prev_def gcost_def fcost_def)

definition unvisited :: "state \<Rightarrow> pos set" where
  "unvisited g = {p. in_grid g p \<and> \<not> visited g p}"

lemma finite_unvisited [simp]: "finite (unvisited g)"
  by (rule finite_subset[OF _ finite_cells[of g]]) (auto simp: unvisited_def cells_def)

lemma unvisited_mark:
  "isVisited (f (gridArray g n)) \<Longrightarrow> unvisited (update_cell n f g) = unvisited g - {n}"
  by (auto simp: unvisited_def)

lemma card_unvisited_mark:
  assumes "in_grid g n" "\<not> visited g n" "isVisited (f (gridArray g n))"
  shows "Suc (card (unvisited (update_cell n f g))) = card (unvisited g)"
proof -
  have "n \<in> unvisited g" using assms by (simp add: unvisited_def)
  then have "card (unvisited g - {n}) = card (unvisited g) - 1" "card (unvisited g) > 0"
    by (auto simp: card_gt_0_iff)
  then show ?thesis using assms by (simp add: unvisited_mark)
qed

lemma getNeighbors_in_grid: "in_grid g p \<Longrightarrow> n \<in> set (getNeighbors g p) \<Longrightarrow> in_grid g n"
  by (cases p) (auto simp: getNeighbors_def in_grid_def split: if_splits)

lemma length_getNeighbors: "length (getNeighbors g p) \<le> 4"
  by (simp add: getNeighbors_def Let_def)

lemma bfs_neighbors_measure:
  "\<forall>n \<in> set ns. in_grid g n \<Longrightarrow> bfs_neighbors c ns g q = (g', q') \<Longrightarrow>
     card (unvisited g') + length q' = card (unvisited g) + length q
     \<and> length q \<le> length q' \<and> ROWS g' = ROWS g \<and> COLS g' = COLS g
     \<and> set q' \<subseteq> set q \<union> set ns"
proof (induction ns arbitrary: g q)
  case Nil
  then show ?case by simp
next
  case (Cons n ns)
  show ?case
  proof (cases "\<not> visited g n \<and> \<not> wall g n")
    case True
    let ?g1 = "update_cell n (\<lambda>x. x\<lparr>isVisited := True, previousNode := Some c\<rparr>) g"
    from True Cons.prems have rec: "bfs_neighbors c ns ?g1 (q @ [n]) = (g', q')" by simp
    have "\<forall>m \<in> set ns. in_grid ?g1 m" using Cons.prems by simp
    from Cons.IH[OF this rec]
    have *: "card (unvisited g') + length q' = card (unvisited ?g1) + length (q @ [n])"
      "length (q @ [n]) \<le> length q'" "ROWS g' = ROWS g" "COLS g' = COLS g"
      "set q' \<subseteq> set (q @ [n]) \<union> set ns" by simp_all
    have "Suc (card (unvisited ?g1)) = card (unvisited g)"
      using True Cons.prems by (intro card_unvisited_mark) simp_all
    with * show ?thesis by auto
  next
    case False
    with Cons.prems have rec: "bfs_neighbors c ns g q = (g', q')" by auto
    from Cons.IH[OF _ rec] Cons.prems show ?thesis by auto
  qed
qed

lemma bfs_loop_terminates:
  "\<forall>p \<in> set queue. in_grid g p \<Longrightarrow> bfs_loop e g queue tr \<noteq> None"
proof (induction "2 * card (unvisited g) + length queue" arbitrary: g queue tr rule: less_induct)
  case less
  show ?case
  proof (cases queue)
    case Nil
    then show ?thesis by (subst bfs_loop.simps) simp
  next
    case (Cons current rest)
    show ?thesis
    proof (cases "current = e")
      case True
      with Cons show ?thesis by (subst bfs_loop.simps) simp
    next
      case False
      obtain g' q' where nb: "bfs_neighbors current (getNeighbors g current) g rest = (g', q')"
        by (cases "bfs_neighbors current (getNeighbors g current) g rest")
      have cur: "in_grid g current" using less.prems Cons by simp
      then have "\<forall>n \<in> set (getNeighbors g current). in_grid g n"
        by (blast intro: getNeighbors_in_grid)
      from bfs_neighbors_measure[OF this nb]
      have m: "card (unvisited g') + length q' = card (unvisited g) + length rest"
        "length rest \<le> length q'" "ROWS g' = ROWS g" "COLS g' = COLS g"
        "set q' \<subseteq> set rest \<union> set (getNeighbors g current)" by simp_all
      have "\<forall>p \<in> set q'. in_grid g' p"
        using m less.prems Cons getNeighbors_in_grid[OF cur]
        by (auto simp: in_grid_same_size[of g' g])
      moreover have "2 * card (unvisited g') + length q' < 2 * card (unvisited g) + length queue"
        using m Cons by simp
      ultimately have "bfs_loop e g' q' (tr @ [current]) \<noteq> None"
        using less.hyps by blast
      with Cons False nb show ?thesis by (subst bfs_loop.simps) simp
    qed
  qed
qed

lemma dfs_neighbors_eq: "dfs_neighbors c ns g q = bfs_neighbors c ns g q"
  by (induction ns arbitrary: g q) simp_all

lemma dfs_loop_terminates:
  "\<forall>p \<in> set stack. in_grid g p \<Longrightarrow> dfs_loop e g stack tr \<noteq> None"
proof (induction "2 * card (unvisited g) + length stack" arbitrary: g stack tr rule: less_induct)
  case less
  show ?case
  proof (cases "stack = []")
    case True
    then show ?thesis by (subst dfs_loop.simps) simp
  next
    case ne: False
    define current where "current = last stack"
    define rest where "rest = butlast stack"
    have stack: "stack = rest @ [current]" using ne by (simp add: current_def rest_def)
    show ?thesis
    proof (cases "current = e")
      case True
      with ne show ?thesis by (subst dfs_loop.simps) (simp add: current_def)
    next
      case False
      obtain g' q' where nb: "bfs_neighbors current (getNeighbors g current) g rest = (g', q')"
        by (cases "bfs_neighbors current (getNeighbors g current) g rest")
      have cur: "in_grid g current" using less.prems stack by simp
      then have "\<forall>n \<in> set (getNeighbors g current). in_grid g n"
        by (blast intro: getNeighbors_in_grid)
      from bfs_neighbors_measure[OF this nb]
      have m: "card (unvisited g') + length q' = card (unvisited g) + length rest"
        "length rest \<le> length q'" "ROWS g' = ROWS g" "COLS g' = COLS g"
        "set q' \<subseteq> set rest \<union> set (getNeighbors g current)" by simp_all
      have "\<forall>p \<in> set q'. in_grid g' p"
        using m less.prems stack getNeighbors_in_grid[OF cur]
        by (auto simp: in_grid_same_size[of g' g])
      moreover have "2 * card (unvisited g') + length q' < 2 * card (unvisited g) + length stack"
        using m stack by simp
      ultimately have "dfs_loop e g' q' (tr @ [current]) \<noteq> None"
        using less.hyps by blast
      with ne False nb show ?thesis
        by (subst dfs_loop.simps) (simp add: dfs_neighbors_eq current_def[symmetric] rest_def[symmetric])
    qed
  qed
qed

lemma astar_neighbors_measure:
  "astar_neighbors e c ns g q = (g', q') \<Longrightarrow>
     unvisited g' = unvisited g \<and> length q' \<le> length q + length ns
     \<and> ROWS g' = ROWS g \<and> COLS g' = COLS g \<and> set q' \<subseteq> set q \<union> set ns"
proof (induction ns arbitrary: g q)
  case Nil
  then show ?case by simp
next
  case (Cons n ns)
  let ?t = "gcost g c + 1"
  let ?g1 = "update_cell n (\<lambda>x. x\<lparr>previousNode := Some c, gCost := ?t,
                   fCost := ?t + enat (heuristic n e)\<rparr>) g"
  show ?case
  proof (cases "\<not> (wall g n \<or> visited g n) \<and> ?t < gcost g n")
    case True
    with Cons.prems
    have rec: "astar_neighbors e c ns ?g1 (if n \<in> set q then q else q @ [n]) = (g', q')"
      by (simp add: Let_def)
    have "unvisited ?g1 = unvisited g" by (auto simp: unvisited_def)
    with Cons.IH[OF rec] show ?thesis by (auto split: if_splits)
  next
    case False
    with Cons.prems have rec: "astar_neighbors e c ns g q = (g', q')"
      by (auto simp: Let_def split: if_splits)
    from Cons.IH[OF rec] show ?thesis by auto
  qed
qed

lemma astar_loop_terminates:
  "\<forall>p \<in> set openSet. in_grid g p \<Longrightarrow> astar_loop e g openSet tr \<noteq> None"
proof (induction "5 * card (unvisited g) + length openSet" arbitrary: g openSet tr rule: less_induct)
  case less
  let ?sorted = "sort_key (fcost g) openSet"
  show ?case
  proof (cases ?sorted)
    case Nil
    then show ?thesis by (subst astar_loop.simps) simp
  next
    case (Cons current rest)
    have len: "length openSet = Suc (length rest)"
      using Cons length_sort[of "\<lambda>p. fCost (gridArray g p)" openSet] by simp
    have sets: "set openSet = insert current (set rest)"
      using Cons set_sort[of "\<lambda>p. fCost (gridArray g p)" openSet] by simp
    have cur: "in_grid g current" and rest: "\<forall>p \<in> set rest. in_grid g p"
      using less.prems sets by auto
    show ?thesis
    proof (cases "visited g current")
      case True
      have "5 * card (unvisited g) + length rest < 5 * card (unvisited g) + length openSet"
        using len by simp
      with rest have "astar_loop e g rest tr \<noteq> None"
        using less.hyps by blast
      with Cons True show ?thesis by (subst astar_loop.simps) simp
    next
      case unv: False
      let ?g1 = "update_cell current (\<lambda>x. x\<lparr>isVisited := True\<rparr>) g"
      show ?thesis
      proof (cases "current = e")
        case True
        with Cons unv show ?thesis by (subst astar_loop.simps) (simp add: Let_def)
      next
        case False
        obtain g2 q2 where nb:
          "astar_neighbors e current (getNeighbors ?g1 current) ?g1 rest = (g2, q2)"
          by (cases "astar_neighbors e current (getNeighbors ?g1 current) ?g1 rest")
        from astar_neighbors_measure[OF nb]
        have m: "unvisited g2 = unvisited ?g1"
          "length q2 \<le> length rest + length (getNeighbors g current)"
          "ROWS g2 = ROWS g" "COLS g2 = COLS g"
          "set q2 \<subseteq> set rest \<union> set (getNeighbors g current)" by simp_all
        have c1: "Suc (card (unvisited ?g1)) = card (unvisited g)"
          using cur unv by (intro card_unvisited_mark) simp_all
        have "\<forall>p \<in> set q2. in_grid g2 p"
          using m rest getNeighbors_in_grid[OF cur]
          by (auto simp: in_grid_same_size[of g2 g])
        moreover have "5 * card (unvisited g2) + length q2 < 5 * card (unvisited g) + length openSet"
          using m c1 len length_getNeighbors[of g current] by simp
        ultimately have "astar_loop e g2 q2 (tr @ [current]) \<noteq> None"
          using less.hyps by blast
        with Cons unv False nb show ?thesis
          by (subst astar_loop.simps) (simp add: Let_def)
      qed
    qed
  qed
qed

lemma resetVisuals_globals [simp]:
  "ROWS (resetVisuals g) = ROWS g" "COLS (resetVisuals g) = COLS g"
  "startPos (resetVisuals g) = startPos g" "endPos (resetVisuals g) = endPos g"
  by (simp_all add: resetVisuals_def)

lemma resetVisuals_cells [simp]:
  "wall (resetVisuals g) p = wall g p" "visited (resetVisuals g) p = False"
  "prev (resetVisuals g) p = None" "gcost (resetVisuals g) p = \<infinity>"
  "fcost (resetVisuals g) p = \<infinity>"
  by (simp_all add: resetVisuals_def wall_def visited_def prev_def gcost_def fcost_def
        del: fold_accessors)

lemma in_grid_resetVisuals [simp]: "in_grid (resetVisuals g) p = in_grid g p"
  by (simp add: in_grid_def)

lemma reconstruct_root: "prev g p = None \<Longrightarrow> reconstruct g (Some p) acc = Some (p # acc)"
  by (subst reconstruct.simps, simp, subst reconstruct.simps, simp)

lemma bfs_same: "bfs g p p = Some ([p], ReachedEnd, update_cell p (\<lambda>x. x\<lparr>isVisited := True\<rparr>) g)"
  unfolding bfs_def by (subst bfs_loop.simps) simp

lemma dfs_same: "dfs g p p = Some ([p], ReachedEnd, update_cell p (\<lambda>x. x\<lparr>isVisited := True\<rparr>) g)"
  unfolding dfs_def by (subst dfs_loop.simps) simp

lemma astar_same:
  "\<not> visited g p \<Longrightarrow> \<exists>g'. astar g p p = Some ([p], ReachedEnd, g') \<and> visited g' p \<and> prev g' p = prev g p \<and> wall g' p = wall g p \<and> startPos g' = startPos g"
  unfolding astar_def by (subst astar_loop.simps) (simp add: Let_def)

subsection \<open>What the generators and the searches leave unchanged\<close>

text \<open>What no generator changes: the size, the two positions and their wall flags.\<close>

definition keeps :: "state \<Rightarrow> state \<Rightarrow> bool" where
  "keeps g g' =
     (ROWS g' = ROWS g \<and> COLS g' = COLS g \<and> startPos g' = startPos g \<and> endPos g' = endPos g
      \<and> wall g' (startPos g) = wall g (startPos g) \<and> wall g' (endPos g) = wall g (endPos g))"

lemma keeps_refl [simp]: "keeps g g"
  by (simp add: keeps_def)

lemma keeps_trans: "keeps g g1 \<Longrightarrow> keeps g1 g2 \<Longrightarrow> keeps g g2"
  by (simp add: keeps_def)

lemma keeps_in_grid: "keeps g g' \<Longrightarrow> in_grid g' p = in_grid g p"
  by (simp add: keeps_def in_grid_def)

lemma keeps_isStartOrEnd: "keeps g g' \<Longrightarrow> isStartOrEnd g' r c = isStartOrEnd g r c"
  by (simp add: keeps_def isStartOrEnd_def)

lemma addWall_keeps: "addWall r c st g = Inr g' \<Longrightarrow> keeps g g'"
  by (cases "startPos g"; cases "endPos g")
     (auto simp: addWall_def keeps_def isStartOrEnd_def split: if_splits)

lemma addWall_ok:
  assumes "isStartOrEnd g r c \<or> in_grid g (r, c)"
  shows "\<exists>g'. addWall r c st g = Inr g' \<and> keeps g g'"
proof -
  from assms obtain g' where "addWall r c st g = Inr g'"
    by (cases "isStartOrEnd g r c") (auto simp: addWall_def)
  then show ?thesis using addWall_keeps by blast
qed

lemma wall_unless_special_ok:
  "in_grid g (r, c) \<Longrightarrow> \<exists>g'. wall_unless_special r c g = Inr g' \<and> keeps g g'"
  using addWall_ok[of g r c True] by (auto simp: wall_unless_special_def)

lemma for_each_ok:
  assumes "\<And>x h. x \<in> set xs \<Longrightarrow> keeps g h \<Longrightarrow> \<exists>h'. body x h = Inr h' \<and> keeps h h'"
  shows "\<exists>g'. for_each xs body g = Inr g' \<and> keeps g g'"
  using assms
proof (induction xs arbitrary: g)
  case Nil
  then show ?case by simp
next
  case (Cons x xs)
  from Cons.prems[of x g] obtain g1 where g1: "body x g = Inr g1" "keeps g g1" by auto
  have "\<exists>g'. for_each xs body g1 = Inr g' \<and> keeps g1 g'"
  proof (rule Cons.IH)
    fix y h assume "y \<in> set xs" "keeps g1 h"
    then show "\<exists>h'. body y h = Inr h' \<and> keeps h h'"
      using Cons.prems[of y h] g1 keeps_trans by auto
  qed
  then show ?case using g1 keeps_trans by auto
qed

lemma row_walls_ok:
  assumes "0 \<le> r" "r < ROWS g" "\<And>c. c \<in> set cs \<Longrightarrow> 0 \<le> c \<and> c < COLS g"
  shows "\<exists>g'. for_each cs (\<lambda>c. wall_unless_special r c) g = Inr g' \<and> keeps g g'"
proof (rule for_each_ok)
  fix c h assume "c \<in> set cs" "keeps g h"
  then have "in_grid h (r, c)" using assms by (simp add: in_grid_def keeps_def)
  then show "\<exists>h'. wall_unless_special r c h = Inr h' \<and> keeps h h'" by (rule wall_unless_special_ok)
qed

lemma col_walls_ok:
  assumes "0 \<le> c" "c < COLS g" "\<And>r. r \<in> set rs \<Longrightarrow> 0 \<le> r \<and> r < ROWS g"
  shows "\<exists>g'. for_each rs (\<lambda>r. wall_unless_special r c) g = Inr g' \<and> keeps g g'"
proof (rule for_each_ok)
  fix r h assume "r \<in> set rs" "keeps g h"
  then have "in_grid h (r, c)" using assms by (simp add: in_grid_def keeps_def)
  then show "\<exists>h'. wall_unless_special r c h = Inr h' \<and> keeps h h'" by (rule wall_unless_special_ok)
qed

lemma gap_row_ok:
  assumes "0 \<le> r" "r < ROWS g" "\<And>c. c \<in> set cs \<Longrightarrow> 0 \<le> c \<and> c < COLS g"
  shows "\<exists>g'. for_each cs (\<lambda>c h. if c \<noteq> gap \<and> \<not> isStartOrEnd h r c then addWall r c True h else Inr h) g
              = Inr g' \<and> keeps g g'"
proof (rule for_each_ok)
  fix c h assume "c \<in> set cs" "keeps g h"
  then have "in_grid h (r, c)" using assms by (simp add: in_grid_def keeps_def)
  then show "\<exists>h'. (if c \<noteq> gap \<and> \<not> isStartOrEnd h r c then addWall r c True h else Inr h) = Inr h'
                \<and> keeps h h'"
    using addWall_ok[of h r c True] by auto
qed

lemma gap_col_ok:
  assumes "0 \<le> c" "c < COLS g" "\<And>r. r \<in> set rs \<Longrightarrow> 0 \<le> r \<and> r < ROWS g"
  shows "\<exists>g'. for_each rs (\<lambda>r h. if r \<noteq> gap \<and> \<not> isStartOrEnd h r c then addWall r c True h else Inr h) g
              = Inr g' \<and> keeps g g'"
proof (rule for_each_ok)
  fix r h assume "r \<in> set rs" "keeps g h"
  then have "in_grid h (r, c)" using assms by (simp add: in_grid_def keeps_def)
  then show "\<exists>h'. (if r \<noteq> gap \<and> \<not> isStartOrEnd h r c then addWall r c True h else Inr h) = Inr h'
                \<and> keeps h h'"
    using addWall_ok[of h r c True] by auto
qed

declare recursiveDivision.simps [simp del]
declare spiral_loop.simps [simp del]
declare maze_loop.simps [simp del]

lemma recursiveDivision_ok:
  "0 \<le> rStart \<Longrightarrow> rEnd < ROWS g \<Longrightarrow> 0 \<le> cStart \<Longrightarrow> cEnd < COLS g \<Longrightarrow>
     \<exists>g' rng'. recursiveDivision rStart rEnd cStart cEnd rng g = Inr (g', rng') \<and> keeps g g'"
proof (induction rStart rEnd cStart cEnd rng g rule: recursiveDivision.induct)
  case (1 rStart rEnd cStart cEnd rng g)
  show ?case
  proof (cases "rEnd - rStart < 2 \<or> cEnd - cStart < 2")
    case True
    then show ?thesis by (subst recursiveDivision.simps) simp
  next
    case big: False
    show ?thesis
    proof (cases "rEnd - rStart > cEnd - cStart")
      case True
      obtain k1 rng1 where r1: "(k1, rng1) = random_below (rEnd - rStart - 1) rng"
        by (cases "random_below (rEnd - rStart - 1) rng") simp
      obtain k2 rng2 where r2: "(k2, rng2) = random_below (cEnd - cStart + 1) rng1"
        by (cases "random_below (cEnd - cStart + 1) rng1") simp
      let ?wallR = "k1 + rStart + 1"
      let ?gapC = "k2 + cStart"
      have k1: "0 \<le> k1 \<and> k1 < rEnd - rStart - 1"
        using random_below_range[OF _ r1[symmetric]] big by simp
      have wr: "rStart < ?wallR" "?wallR < rEnd" using k1 by simp_all
      have "\<exists>g'. for_each [cStart..cEnd]
               (\<lambda>c h. if c \<noteq> ?gapC \<and> \<not> isStartOrEnd h ?wallR c then addWall ?wallR c True h else Inr h) g
              = Inr g' \<and> keeps g g'"
        using wr "1.prems" by (intro gap_row_ok) auto
      then obtain g1 where g1: "for_each [cStart..cEnd]
               (\<lambda>c h. if c \<noteq> ?gapC \<and> \<not> isStartOrEnd h ?wallR c then addWall ?wallR c True h else Inr h) g
              = Inr g1" and kg1: "keeps g g1" by blast
      have "\<exists>g' rng'. recursiveDivision rStart (?wallR - 1) cStart cEnd rng2 g1 = Inr (g', rng') \<and> keeps g1 g'"
        using "1.IH"(1)[OF big True r1 r2 refl refl g1] "1.prems" wr kg1
        by (simp add: keeps_def)
      then obtain g2 rng3 where g2: "recursiveDivision rStart (?wallR - 1) cStart cEnd rng2 g1 = Inr (g2, rng3)"
        and kg2: "keeps g1 g2" by blast
      have "\<exists>g' rng'. recursiveDivision (?wallR + 1) rEnd cStart cEnd rng3 g2 = Inr (g', rng') \<and> keeps g2 g'"
        using "1.IH"(2)[OF big True r1 r2 refl refl g1 g2 refl] "1.prems" wr kg1 kg2
        by (simp add: keeps_def)
      then obtain g3 rng4 where g3: "recursiveDivision (?wallR + 1) rEnd cStart cEnd rng3 g2 = Inr (g3, rng4)"
        and kg3: "keeps g2 g3" by blast
      have "recursiveDivision rStart rEnd cStart cEnd rng g = Inr (g3, rng4)"
        using big True r1[symmetric] r2[symmetric] g1 g2 g3
        by (subst recursiveDivision.simps) (simp add: Let_def)
      then show ?thesis using kg1 kg2 kg3 keeps_trans by blast
    next
      case False
      obtain k1 rng1 where r1: "(k1, rng1) = random_below (cEnd - cStart - 1) rng"
        by (cases "random_below (cEnd - cStart - 1) rng") simp
      obtain k2 rng2 where r2: "(k2, rng2) = random_below (rEnd - rStart + 1) rng1"
        by (cases "random_below (rEnd - rStart + 1) rng1") simp
      let ?wallC = "k1 + cStart + 1"
      let ?gapR = "k2 + rStart"
      have k1: "0 \<le> k1 \<and> k1 < cEnd - cStart - 1"
        using random_below_range[OF _ r1[symmetric]] big by simp
      have wc: "cStart < ?wallC" "?wallC < cEnd" using k1 by simp_all
      have "\<exists>g'. for_each [rStart..rEnd]
               (\<lambda>r h. if r \<noteq> ?gapR \<and> \<not> isStartOrEnd h r ?wallC then addWall r ?wallC True h else Inr h) g
              = Inr g' \<and> keeps g g'"
        using wc "1.prems" by (intro gap_col_ok) auto
      then obtain g1 where g1: "for_each [rStart..rEnd]
               (\<lambda>r h. if r \<noteq> ?gapR \<and> \<not> isStartOrEnd h r ?wallC then addWall r ?wallC True h else Inr h) g
              = Inr g1" and kg1: "keeps g g1" by blast
      have "\<exists>g' rng'. recursiveDivision rStart rEnd cStart (?wallC - 1) rng2 g1 = Inr (g', rng') \<and> keeps g1 g'"
        using "1.IH"(3)[OF big False r1 r2 refl refl g1] "1.prems" wc kg1
        by (simp add: keeps_def)
      then obtain g2 rng3 where g2: "recursiveDivision rStart rEnd cStart (?wallC - 1) rng2 g1 = Inr (g2, rng3)"
        and kg2: "keeps g1 g2" by blast
      have "\<exists>g' rng'. recursiveDivision rStart rEnd (?wallC + 1) cEnd rng3 g2 = Inr (g', rng') \<and> keeps g2 g'"
        using "1.IH"(4)[OF big False r1 r2 refl refl g1 g2 refl] "1.prems" wc kg1 kg2
        by (simp add: keeps_def)
      then obtain g3 rng4 where g3: "recursiveDivision rStart rEnd (?wallC + 1) cEnd rng3 g2 = Inr (g3, rng4)"
        and kg3: "keeps g2 g3" by blast
      have "recursiveDivision rStart rEnd cStart cEnd rng g = Inr (g3, rng4)"
        using big False r1[symmetric] r2[symmetric] g1 g2 g3
        by (subst recursiveDivision.simps) (simp add: Let_def)
      then show ?thesis using kg1 kg2 kg3 keeps_trans by blast
    qed
  qed
qed

lemma spiral_loop_ok:
  "0 \<le> rStart \<Longrightarrow> rEnd < ROWS g \<Longrightarrow> 0 \<le> cStart \<Longrightarrow> cEnd < COLS g \<Longrightarrow>
   rEnd + 2 < ROWS g \<or> rStart + 2 \<le> rEnd \<Longrightarrow>
     \<exists>g'. spiral_loop rStart rEnd cStart cEnd g = Inr g' \<and> keeps g g'"
proof (induction rStart rEnd cStart cEnd g rule: spiral_loop.induct)
  case (1 rStart rEnd cStart cEnd g)
  show ?case
  proof (cases "rStart \<le> rEnd \<and> cStart \<le> cEnd")
    case False
    then show ?thesis by (subst spiral_loop.simps) auto
  next
    case go: True
    let ?rStart1 = "rStart + 2"
    let ?cEnd1 = "cEnd - 2"
    let ?rEnd1 = "if ?rStart1 \<le> rEnd then rEnd - 2 else rEnd"
    let ?cStart1 = "if cStart \<le> ?cEnd1 then cStart + 2 else cStart"
    have "\<exists>g'. for_each [cStart..cEnd] (\<lambda>c. wall_unless_special rStart c) g = Inr g' \<and> keeps g g'"
      using go "1.prems" by (intro row_walls_ok) auto
    then obtain g1 where g1: "for_each [cStart..cEnd] (\<lambda>c. wall_unless_special rStart c) g = Inr g1"
      and k1: "keeps g g1" by blast
    have sz1: "ROWS g1 = ROWS g" "COLS g1 = COLS g" using k1 by (simp_all add: keeps_def)
    have "\<exists>g'. for_each [?rStart1 - 2..rEnd] (\<lambda>r. wall_unless_special r cEnd) g1 = Inr g' \<and> keeps g1 g'"
      using go "1.prems" sz1 by (intro col_walls_ok) auto
    then obtain g2 where g2: "for_each [?rStart1 - 2..rEnd] (\<lambda>r. wall_unless_special r cEnd) g1 = Inr g2"
      and k2: "keeps g1 g2" by blast
    have sz2: "ROWS g2 = ROWS g" "COLS g2 = COLS g" using k2 sz1 by (simp_all add: keeps_def)
    have "\<exists>g'. (if ?rStart1 \<le> rEnd
                then for_each (rev [cStart..?cEnd1 + 2]) (\<lambda>c. wall_unless_special rEnd c) g2
                else Inr g2) = Inr g' \<and> keeps g2 g'"
    proof (cases "?rStart1 \<le> rEnd")
      case True
      have "\<exists>g'. for_each (rev [cStart..?cEnd1 + 2]) (\<lambda>c. wall_unless_special rEnd c) g2 = Inr g' \<and> keeps g2 g'"
        using go "1.prems" sz2 by (intro row_walls_ok) auto
      with True show ?thesis by simp
    next
      case False
      then show ?thesis by simp
    qed
    then obtain g3 where g3: "(if ?rStart1 \<le> rEnd
                then for_each (rev [cStart..?cEnd1 + 2]) (\<lambda>c. wall_unless_special rEnd c) g2
                else Inr g2) = Inr g3" and k3: "keeps g2 g3" by blast
    have sz3: "ROWS g3 = ROWS g" "COLS g3 = COLS g" using k3 sz2 by (simp_all add: keeps_def)
    have "\<exists>g'. (if cStart \<le> ?cEnd1
                then for_each (rev [?rStart1..?rEnd1 + 2]) (\<lambda>r. wall_unless_special r cStart) g3
                else Inr g3) = Inr g' \<and> keeps g3 g'"
    proof (cases "cStart \<le> ?cEnd1")
      case True
      have "\<exists>g'. for_each (rev [?rStart1..?rEnd1 + 2]) (\<lambda>r. wall_unless_special r cStart) g3 = Inr g' \<and> keeps g3 g'"
        using go "1.prems" sz3 by (intro col_walls_ok) (auto split: if_splits)
      with True show ?thesis by simp
    next
      case False
      then show ?thesis by simp
    qed
    then obtain g4 where g4: "(if cStart \<le> ?cEnd1
                then for_each (rev [?rStart1..?rEnd1 + 2]) (\<lambda>r. wall_unless_special r cStart) g3
                else Inr g3) = Inr g4" and k4: "keeps g3 g4" by blast
    have sz4: "ROWS g4 = ROWS g" "COLS g4 = COLS g" using k4 sz3 by (simp_all add: keeps_def)
    have "\<exists>g'. spiral_loop ?rStart1 ?rEnd1 ?cStart1 ?cEnd1 g4 = Inr g' \<and> keeps g4 g'"
      using go "1.prems" sz4
      by (intro "1.IH"[OF go g1 refl g2 refl g3 refl g4 refl]) (auto split: if_splits)
    then obtain g5 where g5: "spiral_loop ?rStart1 ?rEnd1 ?cStart1 ?cEnd1 g4 = Inr g5"
      and k5: "keeps g4 g5" by blast
    have "spiral_loop rStart rEnd cStart cEnd g = Inr g5"
      by (subst spiral_loop.simps) (simp only: go if_True g1 g2 g3 g4 g5 Let_def sum.case simp_thms)
    moreover have "keeps g g5" using k1 k2 k3 k4 k5 keeps_trans by blast
    ultimately show ?thesis by blast
  qed
qed

lemma clearNeighbors_ok: "\<exists>g'. clearNeighbors p g = Inr g' \<and> keeps g g'"
  unfolding clearNeighbors_def
proof (rule for_each_ok)
  fix x :: "int \<times> int" and h
  obtain dr dc where x: "x = (dr, dc)" by (cases x)
  show "\<exists>h'. (case x of (dr, dc) \<Rightarrow> \<lambda>g. let r = fst p + dr; c = snd p + dc in
                 if r \<ge> 0 \<and> r < ROWS g \<and> c \<ge> 0 \<and> c < COLS g then addWall r c False g else Inr g) h
              = Inr h' \<and> keeps h h'"
    using addWall_ok[of h "fst p + dr" "snd p + dc" False]
    by (auto simp: x Let_def in_grid_def)
qed

lemma generateSpiralPattern_ok:
  assumes "5 \<le> ROWS g" "5 \<le> COLS g"
  shows "\<exists>g'. generateSpiralPattern g = Inr g' \<and> keeps g g'"
proof -
  have "\<exists>g'. spiral_loop 1 (ROWS g - 2) 1 (COLS g - 2) g = Inr g' \<and> keeps g g'"
    using assms by (intro spiral_loop_ok) auto
  then obtain g1 where g1: "spiral_loop 1 (ROWS g - 2) 1 (COLS g - 2) g = Inr g1" "keeps g g1"
    by blast
  obtain g2 where g2: "clearNeighbors (startPos g1) g1 = Inr g2" "keeps g1 g2"
    using clearNeighbors_ok by blast
  obtain g3 where g3: "clearNeighbors (endPos g2) g2 = Inr g3" "keeps g2 g3"
    using clearNeighbors_ok by blast
  have "generateSpiralPattern g = Inr g3" using g1 g2 g3 by (simp add: generateSpiralPattern_def)
  then show ?thesis using g1 g2 g3 keeps_trans by blast
qed

lemma getMazeNeighbors_step:
  assumes "n \<in> set (getMazeNeighbors g r c V)" "in_grid g (r, c)"
  shows "in_grid g n \<and> in_grid g ((r + fst n) div 2, (c + snd n) div 2)"
proof -
  have n: "in_grid g n" using getMazeNeighbors_fresh[OF assms(1)] by (simp add: cells_def)
  have "n \<in> set (map (\<lambda>(dr, dc). (r + dr, c + dc)) [(0, - 2), (0, 2), (- 2, 0), (2, 0)])"
    using assms(1) unfolding getMazeNeighbors_def by (simp only: set_filter mem_Collect_eq)
  then have "n = (r, c - 2) \<or> n = (r, c + 2) \<or> n = (r - 2, c) \<or> n = (r + 2, c)"
    by auto
  then have "in_grid g ((r + fst n) div 2, (c + snd n) div 2)"
    using n assms(2) by (auto simp: in_grid_def)
  with n show ?thesis by simp
qed

lemma maze_loop_ok:
  "\<forall>p \<in> set stack. in_grid g p \<Longrightarrow>
     \<exists>g' rng'. maze_loop stack V rng g = Inr (g', rng') \<and> keeps g g'"
proof (induction stack V rng g rule: maze_loop.induct)
  case (1 stack V rng g)
  show ?case
  proof (cases "stack = []")
    case True
    then show ?thesis by (subst maze_loop.simps) simp
  next
    case ne: False
    let ?cur = "last stack"
    let ?stack1 = "butlast stack"
    let ?ns = "getMazeNeighbors g (fst ?cur) (snd ?cur) V"
    have cur: "in_grid g ?cur" using ne "1.prems" by simp
    have rest: "\<forall>p \<in> set ?stack1. in_grid g p" using "1.prems" by (auto dest: in_set_butlastD)
    show ?thesis
    proof (cases "?ns = []")
      case True
      have "\<exists>g' rng'. maze_loop ?stack1 V rng g = Inr (g', rng') \<and> keeps g g'"
        using rest by (intro "1.IH"(2)[OF ne refl refl refl]) (simp_all add: True)
      then show ?thesis using ne True by (subst maze_loop.simps) (simp add: Let_def)
    next
      case some: False
      obtain k rng1 where r: "(k, rng1) = random_below (int (length ?ns)) rng"
        by (cases "random_below (int (length ?ns)) rng") simp
      let ?next = "?ns ! nat k"
      let ?wallR = "(fst ?cur + fst ?next) div 2"
      let ?wallC = "(snd ?cur + snd ?next) div 2"
      have "0 \<le> k \<and> k < int (length ?ns)"
        using random_below_range[OF _ r[symmetric]] some by simp
      then have "nat k < length ?ns" by (simp add: nat_less_iff)
      then have "?next \<in> set ?ns" by (rule nth_mem)
      from getMazeNeighbors_step[OF this] cur
      have nx: "in_grid g ?next" and mid: "in_grid g (?wallR, ?wallC)" by simp_all
      obtain g1 where g1: "addWall ?wallR ?wallC False g = Inr g1" and k1: "keeps g g1"
        using addWall_ok[OF disjI2[OF mid]] by blast
      have "in_grid g1 (fst ?next, snd ?next)" using nx keeps_in_grid[OF k1] by simp
      then obtain g2 where g2: "addWall (fst ?next) (snd ?next) False g1 = Inr g2" and k2: "keeps g1 g2"
        using addWall_ok[OF disjI2] by blast
      have k12: "keeps g g2" using k1 k2 keeps_trans by blast
      have "\<forall>p \<in> set (?stack1 @ [?cur] @ [?next]). in_grid g2 p"
        using rest cur nx keeps_in_grid[OF k12] by auto
      then have "\<exists>g' rng'. maze_loop (?stack1 @ [?cur] @ [?next]) (insert ?next V) rng1 g2 = Inr (g', rng')
                  \<and> keeps g2 g'"
        by (intro "1.IH"(1)[OF ne refl refl refl some r refl refl refl g1 g2])
      then obtain g3 rng3 where
        g3: "maze_loop (?stack1 @ [?cur] @ [?next]) (insert ?next V) rng1 g2 = Inr (g3, rng3)"
        and k3: "keeps g2 g3" by blast
      have "maze_loop stack V rng g = Inr (g3, rng3)"
        using ne some r[symmetric] g1 g2 g3 by (subst maze_loop.simps) (simp add: Let_def)
      then show ?thesis using k12 k3 keeps_trans by blast
    qed
  qed
qed

lemma generateDFSMaze_ok:
  assumes "in_grid g (startPos g)"
  shows "\<exists>g' rng'. generateDFSMaze rng g = Inr (g', rng') \<and> keeps g g'"
proof -
  have "\<exists>g'. for_each [0..ROWS g - 1] (\<lambda>r. for_each [0..COLS g - 1] (\<lambda>c. wall_unless_special r c)) g
          = Inr g' \<and> keeps g g'"
  proof (rule for_each_ok)
    fix r h assume r: "r \<in> set [0..ROWS g - 1]" and k: "keeps g h"
    have sz: "ROWS h = ROWS g" "COLS h = COLS g" using k by (simp_all add: keeps_def)
    have "\<exists>h'. for_each [0..COLS g - 1] (\<lambda>c. wall_unless_special r c) h = Inr h' \<and> keeps h h'"
      using r sz by (intro row_walls_ok) auto
    then show "\<exists>h'. for_each [0..COLS g - 1] (wall_unless_special r) h = Inr h' \<and> keeps h h'"
      by simp
  qed
  then obtain g1 where g1: "for_each [0..ROWS g - 1]
      (\<lambda>r. for_each [0..COLS g - 1] (\<lambda>c. wall_unless_special r c)) g = Inr g1" and k1: "keeps g g1"
    by blast
  have "in_grid g1 (startPos g1)" using assms k1 keeps_in_grid[OF k1] by (simp add: keeps_def)
  then have "\<exists>g' rng'. maze_loop [startPos g1] {startPos g1} rng g1 = Inr (g', rng') \<and> keeps g1 g'"
    by (intro maze_loop_ok) simp
  then obtain g2 rng1 where g2: "maze_loop [startPos g1] {startPos g1} rng g1 = Inr (g2, rng1)"
    and k2: "keeps g1 g2" by blast
  have "isStartOrEnd g2 (fst (startPos g2)) (snd (startPos g2))" by (simp add: isStartOrEnd_def)
  then obtain g3 where g3: "addWall (fst (startPos g2)) (snd (startPos g2)) False g2 = Inr g3"
    and k3: "keeps g2 g3" using addWall_ok by blast
  have "isStartOrEnd g3 (fst (endPos g3)) (snd (endPos g3))" by (simp add: isStartOrEnd_def)
  then obtain g4 where g4: "addWall (fst (endPos g3)) (snd (endPos g3)) False g3 = Inr g4"
    and k4: "keeps g3 g4" using addWall_ok by blast
  have "generateDFSMaze rng g = Inr (g4, rng1)"
    using g1 g2 g3 g4 by (simp add: generateDFSMaze_def)
  then show ?thesis using k1 k2 k3 k4 keeps_trans by blast
qed

definition same_walls :: "state \<Rightarrow> state \<Rightarrow> bool" where
  "same_walls g g' =
     (ROWS g' = ROWS g \<and> COLS g' = COLS g \<and> startPos g' = startPos g \<and> endPos g' = endPos g
      \<and> (\<forall>p. wall g' p = wall g p))"

lemma same_walls_refl [simp]: "same_walls g g"
  by (simp add: same_walls_def)

lemma same_walls_trans: "same_walls g g1 \<Longrightarrow> same_walls g1 g2 \<Longrightarrow> same_walls g g2"
  by (simp add: same_walls_def)

lemma same_walls_update_cell:
  "isWall (f (gridArray g p)) = wall g p \<Longrightarrow> same_walls g (update_cell p f g)"
  by (simp add: same_walls_def)

lemma bfs_neighbors_frame: "bfs_neighbors c ns g q = (g', q') \<Longrightarrow> same_walls g g'"
proof (induction ns arbitrary: g q)
  case Nil
  then show ?case by simp
next
  case (Cons n ns)
  show ?case
  proof (cases "\<not> visited g n \<and> \<not> wall g n")
    case True
    let ?g1 = "update_cell n (\<lambda>x. x\<lparr>isVisited := True, previousNode := Some c\<rparr>) g"
    have "same_walls g ?g1" by (rule same_walls_update_cell) simp
    moreover have "same_walls ?g1 g'" using Cons True by simp
    ultimately show ?thesis by (rule same_walls_trans)
  next
    case False
    with Cons show ?thesis by auto
  qed
qed

lemma astar_neighbors_frame: "astar_neighbors e c ns g q = (g', q') \<Longrightarrow> same_walls g g'"
proof (induction ns arbitrary: g q)
  case Nil
  then show ?case by simp
next
  case (Cons n ns)
  let ?t = "gcost g c + 1"
  let ?g1 = "update_cell n (\<lambda>x. x\<lparr>previousNode := Some c, gCost := ?t,
                   fCost := ?t + enat (heuristic n e)\<rparr>) g"
  show ?case
  proof (cases "\<not> (wall g n \<or> visited g n) \<and> ?t < gcost g n")
    case True
    have "same_walls g ?g1" by (rule same_walls_update_cell) simp
    moreover have "same_walls ?g1 g'" using Cons True by (simp add: Let_def)
    ultimately show ?thesis by (rule same_walls_trans)
  next
    case False
    with Cons show ?thesis by (auto simp: Let_def split: if_splits)
  qed
qed

lemmas bfs_loop_pinduct = bfs_loop.raw_induct[rotated 1, consumes 1, case_names iter]
lemmas dfs_loop_pinduct = dfs_loop.raw_induct[rotated 1, consumes 1, case_names iter]
lemmas astar_loop_pinduct = astar_loop.raw_induct[rotated 1, consumes 1, case_names iter]

lemma bfs_loop_frame:
  assumes "bfs_loop e g q tr = Some res"
  shows "same_walls g (snd (snd res))"
  using assms
proof (induction rule: bfs_loop_pinduct)
  case (iter loop e g q tr res)
  show ?case
  proof (cases q)
    case Nil
    with iter(2) show ?thesis by auto
  next
    case (Cons current rest)
    show ?thesis
    proof (cases "current = e")
      case True
      with Cons iter(2) show ?thesis by auto
    next
      case False
      obtain g1 q1 where nb: "bfs_neighbors current (getNeighbors g current) g rest = (g1, q1)"
        by (cases "bfs_neighbors current (getNeighbors g current) g rest")
      with Cons False iter(2) have "loop e g1 q1 (tr @ [current]) = Some res" by simp
      from iter(1)[OF this] bfs_neighbors_frame[OF nb] show ?thesis by (rule same_walls_trans[rotated])
    qed
  qed
qed

lemma dfs_loop_frame:
  assumes "dfs_loop e g q tr = Some res"
  shows "same_walls g (snd (snd res))"
  using assms
proof (induction rule: dfs_loop_pinduct)
  case (iter loop e g q tr res)
  show ?case
  proof (cases "q = [] \<or> last q = e")
    case True
    with iter(2) show ?thesis by (auto simp: Let_def split: if_splits)
  next
    case False
    obtain g1 q1 where nb: "bfs_neighbors (last q) (getNeighbors g (last q)) g (butlast q) = (g1, q1)"
      by (cases "bfs_neighbors (last q) (getNeighbors g (last q)) g (butlast q)")
    with False iter(2) have "loop e g1 q1 (tr @ [last q]) = Some res"
      by (simp add: Let_def dfs_neighbors_eq)
    from iter(1)[OF this] bfs_neighbors_frame[OF nb] show ?thesis by (rule same_walls_trans[rotated])
  qed
qed

lemma astar_loop_frame:
  assumes "astar_loop e g q tr = Some res"
  shows "same_walls g (snd (snd res))"
  using assms
proof (induction rule: astar_loop_pinduct)
  case (iter loop e g q tr res)
  show ?case
  proof (cases "sort_key (fcost g) q")
    case Nil
    with iter(2) show ?thesis by auto
  next
    case (Cons current rest)
    let ?g1 = "update_cell current (\<lambda>x. x\<lparr>isVisited := True\<rparr>) g"
    have f1: "same_walls g ?g1" by (rule same_walls_update_cell) simp
    show ?thesis
    proof (cases "visited g current")
      case True
      with Cons iter(2) have "loop e g rest tr = Some res" by simp
      from iter(1)[OF this] show ?thesis .
    next
      case unv: False
      show ?thesis
      proof (cases "current = e")
        case True
        with Cons unv iter(2) f1 show ?thesis by (auto simp: Let_def)
      next
        case False
        obtain g2 q2 where nb: "astar_neighbors e current (getNeighbors ?g1 current) ?g1 rest = (g2, q2)"
          by (cases "astar_neighbors e current (getNeighbors ?g1 current) ?g1 rest")
        with Cons unv False iter(2) have "loop e g2 q2 (tr @ [current]) = Some res"
          by (simp add: Let_def)
        from iter(1)[OF this] have "same_walls g2 (snd (snd res))" .
        with f1 astar_neighbors_frame[OF nb] show ?thesis by (blast intro: same_walls_trans)
      qed
    qed
  qed
qed

lemma search_frame: "search a g s e = Some (tr, ex, g') \<Longrightarrow> same_walls g g'"
proof -
  assume r: "search a g s e = Some (tr, ex, g')"
  have f: "same_walls g (update_cell s (\<lambda>x. x\<lparr>isVisited := True\<rparr>) g)"
    "same_walls g (update_cell s (\<lambda>x. x\<lparr>gCost := 0, fCost := enat (heuristic s e)\<rparr>) g)"
    by (rule same_walls_update_cell, simp)+
  show ?thesis
  proof (cases a)
    case BFS
    with r bfs_loop_frame[of e _ "[s]" "[]" "(tr, ex, g')"] f show ?thesis
      by (auto simp: search_def bfs_def intro: same_walls_trans)
  next
    case DFS
    with r dfs_loop_frame[of e _ "[s]" "[]" "(tr, ex, g')"] f show ?thesis
      by (auto simp: search_def dfs_def intro: same_walls_trans)
  next
    case AStar
    with r astar_loop_frame[of e _ "[s]" "[]" "(tr, ex, g')"] f show ?thesis
      by (auto simp: search_def astar_def intro: same_walls_trans)
  qed
qed

subsection \<open>Well-formed states\<close>

definition well_formed :: "state \<Rightarrow> bool" where
  "well_formed g =
     (5 \<le> ROWS g \<and> 5 \<le> COLS g \<and> in_grid g (startPos g) \<and> in_grid g (endPos g)
      \<and> \<not> wall g (startPos g) \<and> \<not> wall g (endPos g))"

lemma well_formed_keeps: "well_formed g \<Longrightarrow> keeps g g' \<Longrightarrow> well_formed g'"
  by (simp add: well_formed_def keeps_def in_grid_def)

lemma same_walls_wall: "same_walls g g' \<Longrightarrow> wall g' p = wall g p"
  by (cases p) (simp add: same_walls_def)

lemma same_walls_in_grid: "same_walls g g' \<Longrightarrow> in_grid g' p = in_grid g p"
  by (simp add: same_walls_def in_grid_def)

lemma well_formed_same_walls: "well_formed g \<Longrightarrow> same_walls g g' \<Longrightarrow> well_formed g'"
  using same_walls_wall[of g g'] same_walls_in_grid[of g g']
  by (simp add: well_formed_def) (simp add: same_walls_def)

lemma well_formed_flags [simp]:
  "well_formed (g\<lparr>isRunning := b\<rparr>) = well_formed g"
  "well_formed (g\<lparr>isMousePressed := b\<rparr>) = well_formed g"
  "well_formed (g\<lparr>draggingNode := d\<rparr>) = well_formed g"
  "well_formed (g\<lparr>currentTool := t\<rparr>) = well_formed g"
  by (simp_all add: well_formed_def in_grid_def wall_def del: fold_accessors)

lemma well_formed_init: "well_formed (calculateGridSize cols0 rows0 script_start)"
  by (auto simp add: well_formed_def calculateGridSize_def script_start_def createGrid_def in_grid_def
        wall_def blank_def Let_def min_def simp del: fold_accessors)

lemma well_formed_calculateGridSize:
  "well_formed g \<Longrightarrow> well_formed (calculateGridSize cols0 rows0 g)"
  by (auto simp add: well_formed_def calculateGridSize_def createGrid_def in_grid_def
        wall_def blank_def Let_def min_def simp del: fold_accessors)

lemma same_walls_resetVisuals: "same_walls g (resetVisuals g)"
  by (simp add: same_walls_def)

lemma resetBoard_facts:
  "ROWS (resetBoard g) = ROWS g" "COLS (resetBoard g) = COLS g"
  "startPos (resetBoard g) = startPos g" "endPos (resetBoard g) = endPos g"
  "isRunning (resetBoard g) = isRunning g"
  "\<not> isRunning g \<Longrightarrow> \<not> wall (resetBoard g) p"
  by (simp_all add: resetBoard_def resetVisuals_def Let_def wall_def del: fold_accessors)

lemma well_formed_resetBoard: "well_formed g \<Longrightarrow> well_formed (resetBoard g)"
  by (cases "isRunning g")
     (simp_all add: well_formed_def resetBoard_facts in_grid_def, simp add: resetBoard_def)

lemma well_formed_addWall: "well_formed g \<Longrightarrow> addWall r c st g = Inr g' \<Longrightarrow> well_formed g'"
  using addWall_keeps well_formed_keeps by blast

lemma well_formed_use_tool: "well_formed g \<Longrightarrow> use_tool r c g = Inr g' \<Longrightarrow> well_formed g'"
  by (auto simp: use_tool_def dest: well_formed_addWall split: if_splits)

lemma well_formed_handleMouseDown:
  "well_formed g \<Longrightarrow> handleMouseDown r c g = Inr g' \<Longrightarrow> well_formed g'"
  by (auto simp: handleMouseDown_def Let_def split: if_splits
           dest: well_formed_use_tool[of "g\<lparr>isMousePressed := True\<rparr>", simplified])

lemma well_formed_handleMouseEnter:
  "well_formed g \<Longrightarrow> handleMouseEnter r c g = Inr g' \<Longrightarrow> well_formed g'"
  by (auto simp: handleMouseEnter_def split: if_splits dest: well_formed_use_tool)
     (auto simp: well_formed_def in_grid_def wall_def simp del: fold_accessors)

lemma handleMazeGen_ok:
  assumes "5 \<le> ROWS g" "5 \<le> COLS g" "in_grid g (startPos g)"
  shows "\<exists>g' rng'. handleMazeGen t rng g = Inr (g', rng') \<and> ROWS g' = ROWS g \<and> COLS g' = COLS g
           \<and> startPos g' = startPos g \<and> endPos g' = endPos g
           \<and> (wall g' (startPos g) \<longrightarrow> wall g (startPos g))
           \<and> (wall g' (endPos g) \<longrightarrow> wall g (endPos g))"
proof (cases "isRunning g \<or> t = None")
  case True
  then show ?thesis by (auto simp: handleMazeGen_def)
next
  case False
  then obtain ty where t: "t = Some ty" and run: "\<not> isRunning g" by auto
  let ?g1 = "resetBoard g"
  have g1: "5 \<le> ROWS ?g1" "5 \<le> COLS ?g1" "in_grid ?g1 (startPos ?g1)"
    using assms by (simp_all add: resetBoard_facts in_grid_def)
  have "\<exists>g' rng'. handleMazeGen t rng g = Inr (g', rng') \<and> keeps ?g1 g'"
  proof (cases ty)
    case RandomMaze
    with generateDFSMaze_ok[OF g1(3), of rng] t run show ?thesis
      by (auto simp: handleMazeGen_def)
  next
    case Spiral
    with generateSpiralPattern_ok[OF g1(1,2)] t run show ?thesis
      by (auto simp: handleMazeGen_def)
  next
    case Recursive
    have "\<exists>g' rng'. recursiveDivision 1 (ROWS ?g1 - 2) 1 (COLS ?g1 - 2) rng ?g1 = Inr (g', rng')
            \<and> keeps ?g1 g'"
      by (intro recursiveDivision_ok) simp_all
    with Recursive t run show ?thesis by (auto simp: handleMazeGen_def)
  qed
  then obtain g' rng' where r: "handleMazeGen t rng g = Inr (g', rng')" and k: "keeps ?g1 g'"
    by blast
  from k run show ?thesis
    unfolding r by (simp add: keeps_def resetBoard_facts)
qed

lemma well_formed_step:
  assumes "well_formed g" "step ev g = Some (Inr g')"
  shows "well_formed g'"
proof (cases ev)
  case (MouseDown r c)
  with assms show ?thesis by (auto dest: well_formed_handleMouseDown)
next
  case (MouseEnter r c)
  with assms show ?thesis by (auto dest: well_formed_handleMouseEnter)
next
  case MouseUp
  with assms show ?thesis by (auto simp: handleMouseUp_def)
next
  case (SetTool t)
  with assms show ?thesis by (auto simp: setTool_def)
next
  case (Resize c r)
  with assms show ?thesis by (auto simp: well_formed_calculateGridSize)
next
  case ResetBoard
  with assms show ?thesis by (auto simp: well_formed_resetBoard)
next
  case (MazeGen t rng)
  from assms(1) have "5 \<le> ROWS g" "5 \<le> COLS g" "in_grid g (startPos g)"
    by (simp_all add: well_formed_def)
  from handleMazeGen_ok[OF this, of t rng] obtain h rng' where
    h: "handleMazeGen t rng g = Inr (h, rng')" "ROWS h = ROWS g" "COLS h = COLS g"
       "startPos h = startPos g" "endPos h = endPos g"
       "wall h (startPos g) \<longrightarrow> wall g (startPos g)" "wall h (endPos g) \<longrightarrow> wall g (endPos g)"
    by blast
  with MazeGen assms(2) have "g' = h" by simp
  with h assms(1) show ?thesis by (auto simp: well_formed_def in_grid_def)
next
  case (Visualize a)
  show ?thesis
  proof (cases "isRunning g")
    case True
    with Visualize assms show ?thesis by (simp add: startVisualization_def)
  next
    case False
    let ?g0 = "g\<lparr>isRunning := True\<rparr>"
    from False Visualize assms(2) obtain tr ex rep h where
      v: "visualize a ?g0 = Some (Inr (tr, ex, rep, h))" and g': "g' = h\<lparr>isRunning := False\<rparr>"
      by (auto simp: startVisualization_def split: option.splits sum.splits)
    from v have "search a (resetVisuals ?g0) (startPos ?g0) (endPos ?g0) = Some (tr, ex, h)"
      by (auto simp: visualize_def Let_def split: if_splits option.splits)
    from search_frame[OF this] have "same_walls ?g0 h"
      using same_walls_resetVisuals same_walls_trans by blast
    then have "well_formed h" using assms(1) well_formed_same_walls[of ?g0 h] by simp
    then show ?thesis by (simp add: g')
  qed
qed

lemma reachable_well_formed: "reachable g \<Longrightarrow> well_formed g"
  by (induction rule: reachable.induct) (auto intro: well_formed_init well_formed_step)

subsection \<open>Neighbour lookup\<close>

text \<open>
  Claim C4. For a cell \<open>(r, c)\<close> inside an \<open>R \<times> C\<close> grid, \<open>getNeighbors\<close> returns
  exactly those of the four orthogonal neighbours that lie inside the grid, in the
  order up, right, down, left; in particular it never returns a cell outside the grid.
\<close>

theorem getNeighbors_exact:
  "in_grid g (r, c) \<Longrightarrow>
     getNeighbors g (r, c) = filter (in_grid g) [(r - 1, c), (r, c + 1), (r + 1, c), (r, c - 1)]
     \<and> (\<forall>n \<in> set (getNeighbors g (r, c)). in_grid g n)"
  by (auto simp: getNeighbors_def in_grid_def)

theorem getNeighbors_exact_witness:
  "in_grid (calculateGridSize 3 3 script_start) (0, 4)
   \<and> getNeighbors (calculateGridSize 3 3 script_start) (0, 4) = [(1, 4), (0, 3)]
   \<and> in_grid (calculateGridSize 3 3 script_start) (1, 4)
   \<and> in_grid (calculateGridSize 3 3 script_start) (0, 3)"
proof -
  define G where "G = calculateGridSize 3 3 script_start"
  have size: "ROWS G = 5" "COLS G = 5"
    by (simp_all add: G_def calculateGridSize_def script_start_def createGrid_def)
  have i: "in_grid G (0, 4)"
    by (simp add: in_grid_def size)
  have f: "filter (in_grid G) [(0 - 1, 4), (0, 4 + 1), (0 + 1, 4), (0, 4 - 1)] = [(1, 4), (0, 3)]"
    by (simp add: in_grid_def size)
  note ex = getNeighbors_exact[OF i]
  from ex have "getNeighbors G (0, 4) = filter (in_grid G) [(0 - 1, 4), (0, 4 + 1), (0 + 1, 4), (0, 4 - 1)]"
    by (rule conjunct1)
  also note f
  finally have eq: "getNeighbors G (0, 4) = [(1, 4), (0, 3)]" .
  from ex have "\<forall>n \<in> set (getNeighbors G (0, 4)). in_grid G n"
    by (rule conjunct2)
  then have "in_grid G (1, 4)" "in_grid G (0, 3)"
    unfolding eq by simp_all
  with i eq show ?thesis unfolding G_def by blast
qed

subsection \<open>Termination of the searches\<close>

text \<open>
  Claim C9. Every search (BFS, DFS, A*) terminates, whatever the grid size, the walls and
  the per-run fields are, for every start cell of the grid and every end cell: the loop
  returns a trace. For BFS and DFS each iteration removes one frontier entry and adds only
  cells that were unvisited and are now visited; for A* each iteration either visits a cell
  or drops a stale entry, and an expansion adds at most four entries. The number of
  unvisited cells of the finite grid bounds both.
\<close>

theorem search_terminates:
  "in_grid g start \<Longrightarrow> \<exists>tr ex g'. search a g start endNode = Some (tr, ex, g')"
proof -
  assume s: "in_grid g start"
  have "bfs g start endNode \<noteq> None"
    unfolding bfs_def using s by (intro bfs_loop_terminates) simp
  moreover have "dfs g start endNode \<noteq> None"
    unfolding dfs_def using s by (intro dfs_loop_terminates) simp
  moreover have "astar g start endNode \<noteq> None"
    unfolding astar_def using s by (intro astar_loop_terminates) simp
  ultimately have "search a g start endNode \<noteq> None"
    by (cases a) (simp_all add: search_def)
  then show ?thesis by (cases "search a g start endNode") auto
qed

theorem search_terminates_witness:
  "in_grid (calculateGridSize 3 3 script_start) (4, 4)
   \<and> (\<exists>tr ex g'. search AStar (calculateGridSize 3 3 script_start) (4, 4) (0, 0) = Some (tr, ex, g'))"
proof -
  have i: "in_grid (calculateGridSize 3 3 script_start) (4, 4)"
    by (simp add: calculateGridSize_def script_start_def createGrid_def in_grid_def)
  from search_terminates[OF i, of AStar "(0, 0)"] i show ?thesis by simp
qed

subsection \<open>Start and end on the same cell\<close>

text \<open>
  Claim C10. When \<open>startPos\<close> and \<open>endPos\<close> are the same cell of the grid (and that cell
  is not a wall, as after the clamping of \<open>calculateGridSize\<close>, which rebuilds the grid
  without walls), each of the three algorithms returns the trace holding only that cell,
  through the early return, and the run is reported successful with path length 1 and
  visited count 1.
\<close>

theorem same_cell_run:
  assumes "startPos g = endPos g" "in_grid g (startPos g)" "\<not> wall g (startPos g)"
  shows "\<exists>g'. visualize a g =
           Some (Inr ([startPos g], ReachedEnd, \<lparr>visitedCount = 1, pathLen = 1, success = True\<rparr>, g'))"
proof -
  let ?p = "startPos g"
  let ?g = "resetVisuals g"
  have "\<exists>g'. search a ?g ?p ?p = Some ([?p], ReachedEnd, g') \<and> visited g' ?p \<and> prev g' ?p = None
            \<and> \<not> wall g' ?p \<and> startPos g' = ?p"
  proof (cases a)
    case BFS
    then show ?thesis using assms by (simp add: search_def bfs_same)
  next
    case DFS
    then show ?thesis using assms by (simp add: search_def dfs_same)
  next
    case AStar
    have "\<not> visited ?g ?p" by simp
    from astar_same[OF this] AStar assms show ?thesis by (auto simp: search_def)
  qed
  then obtain g' where g': "search a ?g ?p ?p = Some ([?p], ReachedEnd, g')" "visited g' ?p"
    "prev g' ?p = None" "\<not> wall g' ?p" "startPos g' = ?p" by blast
  have "animate g' [?p] ?p = Some \<lparr>visitedCount = 1, pathLen = 1, success = True\<rparr>"
    using g' by (simp add: animate_def reconstruct_root)
  with g' assms show ?thesis by (simp add: visualize_def Let_def)
qed

theorem same_cell_run_witness:
  "startPos (calculateGridSize 3 3 script_start) = endPos (calculateGridSize 3 3 script_start)
   \<and> in_grid (calculateGridSize 3 3 script_start) (4, 4)
   \<and> \<not> wall (calculateGridSize 3 3 script_start) (4, 4)
   \<and> (\<exists>g'. visualize AStar (calculateGridSize 3 3 script_start) =
           Some (Inr ([(4, 4)], ReachedEnd, \<lparr>visitedCount = 1, pathLen = 1, success = True\<rparr>, g')))"
proof -
  let ?g = "calculateGridSize 3 3 script_start"
  have s: "startPos ?g = (4, 4)" and e: "endPos ?g = (4, 4)"
    by (simp_all add: calculateGridSize_def script_start_def createGrid_def)
  have i: "in_grid ?g (4, 4)"
    by (simp add: calculateGridSize_def script_start_def createGrid_def in_grid_def)
  have w: "\<not> wall ?g (4, 4)"
    by (simp add: calculateGridSize_def script_start_def createGrid_def wall_def blank_def)
  from same_cell_run[of ?g AStar] s e i w show ?thesis by simp
qed


subsection \<open>Start and end are cells that are never walls\<close>

text \<open>
  Claim C6. In every state the page can reach, the start and the end position are each a
  cell of the grid and neither is a wall (\<open>well_formed\<close>, which also records that the
  grid is at least 5 by 5). The property holds after the initial \<open>calculateGridSize\<close>
  and is preserved by every event handler, including a resize, which clamps both
  positions into the new grid. Setting or clearing a wall at the start or end position
  is a no-op that raises nothing, and entering a wall cell while dragging the start or
  the end leaves the state unchanged.
\<close>

theorem start_end_invariant:
  "(reachable g \<longrightarrow> well_formed g)
   \<and> (well_formed g \<and> step ev g = Some (Inr g') \<longrightarrow> well_formed g')
   \<and> (isStartOrEnd h r c \<longrightarrow> addWall r c st h = Inr h)
   \<and> (draggingNode k \<noteq> None \<and> in_grid k (r', c') \<and> wall k (r', c')
        \<longrightarrow> handleMouseEnter r' c' k = Inr k)"
proof (intro conjI impI)
  assume "reachable g"
  then show "well_formed g" by (rule reachable_well_formed)
next
  assume "well_formed g \<and> step ev g = Some (Inr g')"
  then show "well_formed g'" using well_formed_step by blast
next
  assume "isStartOrEnd h r c"
  then show "addWall r c st h = Inr h" by (simp add: addWall_def)
next
  assume a: "draggingNode k \<noteq> None \<and> in_grid k (r', c') \<and> wall k (r', c')"
  then obtain d where "draggingNode k = Some d" by auto
  with a show "handleMouseEnter r' c' k = Inr k"
    by (cases d) (simp_all add: handleMouseEnter_def)
qed

theorem start_end_invariant_witness:
  "reachable (calculateGridSize 9 7 script_start)
   \<and> well_formed (calculateGridSize 9 7 script_start)
   \<and> step (Resize 3 3) (calculateGridSize 9 7 script_start)
        = Some (Inr (calculateGridSize 3 3 (calculateGridSize 9 7 script_start)))
   \<and> well_formed (calculateGridSize 3 3 (calculateGridSize 9 7 script_start))
   \<and> startPos (calculateGridSize 3 3 (calculateGridSize 9 7 script_start)) = (4, 4)
   \<and> endPos (calculateGridSize 3 3 (calculateGridSize 9 7 script_start)) = (4, 4)
   \<and> isStartOrEnd (calculateGridSize 9 7 script_start) 5 8
   \<and> addWall 5 8 True (calculateGridSize 9 7 script_start) = Inr (calculateGridSize 9 7 script_start)
   \<and> draggingNode (update_cell (2, 2) (\<lambda>x. x\<lparr>isWall := True\<rparr>)
         ((calculateGridSize 9 7 script_start)\<lparr>isMousePressed := True, draggingNode := Some StartNode\<rparr>))
       \<noteq> None
   \<and> wall (update_cell (2, 2) (\<lambda>x. x\<lparr>isWall := True\<rparr>)
         ((calculateGridSize 9 7 script_start)\<lparr>isMousePressed := True, draggingNode := Some StartNode\<rparr>))
        (2, 2)
   \<and> handleMouseEnter 2 2 (update_cell (2, 2) (\<lambda>x. x\<lparr>isWall := True\<rparr>)
         ((calculateGridSize 9 7 script_start)\<lparr>isMousePressed := True, draggingNode := Some StartNode\<rparr>))
       = Inr (update_cell (2, 2) (\<lambda>x. x\<lparr>isWall := True\<rparr>)
         ((calculateGridSize 9 7 script_start)\<lparr>isMousePressed := True, draggingNode := Some StartNode\<rparr>))"
proof -
  define G where "G = calculateGridSize 9 7 script_start"
  define G' where "G' = calculateGridSize 3 3 G"
  define K where "K = update_cell (2, 2) (\<lambda>x. x\<lparr>isWall := True\<rparr>)
                        (G\<lparr>isMousePressed := True, draggingNode := Some StartNode\<rparr>)"
  have G: "ROWS G = 7" "COLS G = 9" "startPos G = (5, 5)" "endPos G = (5, 8)" "isRunning G = False"
    by (simp_all add: G_def calculateGridSize_def script_start_def createGrid_def)
  have G': "startPos G' = (4, 4)" "endPos G' = (4, 4)"
    by (simp_all add: G'_def calculateGridSize_def createGrid_def G)
  have r: "reachable G" unfolding G_def by (rule reachable.init)
  have st: "step (Resize 3 3) G = Some (Inr G')" by (simp add: G'_def G)
  have se: "isStartOrEnd G 5 8" by (simp add: isStartOrEnd_def G)
  have k: "draggingNode K \<noteq> None" "in_grid K (2, 2)" "wall K (2, 2)"
    by (simp_all add: K_def update_cell_def in_grid_def wall_def G del: fold_accessors)
  note inst = start_end_invariant[of G "Resize 3 3" G' G 5 8 True K 2 2]
  from inst r have w: "well_formed G" by blast
  from inst w st have w': "well_formed G'" by blast
  from inst se have a: "addWall 5 8 True G = Inr G" by blast
  from inst k have h: "handleMouseEnter 2 2 K = Inr K" by blast
  from r w st w' G' se a k(1,3) h show ?thesis
    unfolding G_def G'_def K_def by (intro conjI)
qed

subsection \<open>The generators spare the start and the end\<close>

text \<open>
  Claim C7. On a grid of at least 5 by 5 cells whose start and end cells are not walls,
  for every random seed, each of the three generators (randomized depth-first maze,
  spiral, recursive division on the interior rectangle) finishes without an exception
  and leaves neither the start nor the end cell marked as a wall.
\<close>

theorem generators_spare_start_end:
  assumes "5 \<le> ROWS g" "5 \<le> COLS g" "in_grid g (startPos g)"
    and "\<not> wall g (startPos g)" "\<not> wall g (endPos g)"
  shows "(\<exists>g' rng'. generateDFSMaze rng g = Inr (g', rng')
            \<and> \<not> wall g' (startPos g') \<and> \<not> wall g' (endPos g'))
       \<and> (\<exists>g'. generateSpiralPattern g = Inr g'
            \<and> \<not> wall g' (startPos g') \<and> \<not> wall g' (endPos g'))
       \<and> (\<exists>g' rng'. recursiveDivision 1 (ROWS g - 2) 1 (COLS g - 2) rng g = Inr (g', rng')
            \<and> \<not> wall g' (startPos g') \<and> \<not> wall g' (endPos g'))"
proof -
  have clear: "\<not> wall g' (startPos g') \<and> \<not> wall g' (endPos g')" if "keeps g g'" for g'
    using that assms(4,5) by (simp add: keeps_def)
  have "\<exists>g' rng'. recursiveDivision 1 (ROWS g - 2) 1 (COLS g - 2) rng g = Inr (g', rng') \<and> keeps g g'"
    by (intro recursiveDivision_ok) simp_all
  with generateDFSMaze_ok[OF assms(3), of rng] generateSpiralPattern_ok[OF assms(1,2)] clear
  show ?thesis by blast
qed

theorem generators_spare_start_end_witness:
  "5 \<le> ROWS (calculateGridSize 9 7 script_start) \<and> 5 \<le> COLS (calculateGridSize 9 7 script_start)
   \<and> in_grid (calculateGridSize 9 7 script_start) (startPos (calculateGridSize 9 7 script_start))
   \<and> \<not> wall (calculateGridSize 9 7 script_start) (startPos (calculateGridSize 9 7 script_start))
   \<and> \<not> wall (calculateGridSize 9 7 script_start) (endPos (calculateGridSize 9 7 script_start))
   \<and> (\<exists>g' rng'. generateDFSMaze [3, 1, 4, 1, 5] (calculateGridSize 9 7 script_start) = Inr (g', rng')
            \<and> \<not> wall g' (startPos g') \<and> \<not> wall g' (endPos g'))
   \<and> (\<exists>g'. generateSpiralPattern (calculateGridSize 9 7 script_start) = Inr g'
            \<and> \<not> wall g' (startPos g') \<and> \<not> wall g' (endPos g'))
   \<and> (\<exists>g' rng'. recursiveDivision 1 (ROWS (calculateGridSize 9 7 script_start) - 2) 1
                     (COLS (calculateGridSize 9 7 script_start) - 2) [3, 1, 4, 1, 5]
                     (calculateGridSize 9 7 script_start) = Inr (g', rng')
            \<and> \<not> wall g' (startPos g') \<and> \<not> wall g' (endPos g'))"
proof -
  define G where "G = calculateGridSize 9 7 script_start"
  have G: "ROWS G = 7" "COLS G = 9" "startPos G = (5, 5)" "endPos G = (5, 8)"
    by (simp_all add: G_def calculateGridSize_def script_start_def createGrid_def)
  have h: "5 \<le> ROWS G" "5 \<le> COLS G" "in_grid G (startPos G)"
    by (simp_all add: G in_grid_def)
  have w: "\<not> wall G (startPos G)" "\<not> wall G (endPos G)"
    by (simp_all add: G_def calculateGridSize_def script_start_def createGrid_def wall_def blank_def
          del: fold_accessors)
  from generators_spare_start_end[OF h w, of "[3, 1, 4, 1, 5]"] h w show ?thesis
    unfolding G_def by (intro conjI) blast+
qed

subsection \<open>The generators stay inside the grid\<close>

text \<open>
  Claim C8. \<open>recursiveDivision\<close> returns at once, with the grid and the random source
  untouched, when \<open>rEnd - rStart < 2\<close> or \<open>cEnd - cStart < 2\<close>. And on a grid of at
  least 5 by 5 cells with the start inside it, \<open>handleMazeGen\<close> with any selection and
  any seed returns normally: no generator indexes the grid outside its bounds (such an
  access is the \<open>TypeError\<close> of \<open>addWall\<close>).
\<close>

theorem generators_in_bounds:
  "(rEnd - rStart < 2 \<or> cEnd - cStart < 2
      \<longrightarrow> recursiveDivision rStart rEnd cStart cEnd rng g = Inr (g, rng))
   \<and> (5 \<le> ROWS h \<and> 5 \<le> COLS h \<and> in_grid h (startPos h)
      \<longrightarrow> (\<exists>h' rng''. handleMazeGen t rng' h = Inr (h', rng'')))"
proof (intro conjI impI)
  assume "rEnd - rStart < 2 \<or> cEnd - cStart < 2"
  then show "recursiveDivision rStart rEnd cStart cEnd rng g = Inr (g, rng)"
    by (subst recursiveDivision.simps) simp
next
  assume "5 \<le> ROWS h \<and> 5 \<le> COLS h \<and> in_grid h (startPos h)"
  then have "5 \<le> ROWS h" "5 \<le> COLS h" "in_grid h (startPos h)" by simp_all
  from handleMazeGen_ok[OF this, of t rng']
  show "\<exists>h' rng''. handleMazeGen t rng' h = Inr (h', rng'')" by blast
qed

theorem generators_in_bounds_witness:
  "((2::int) - 1 < 2 \<or> (7::int) - 1 < 2)
   \<and> recursiveDivision 1 2 1 7 [3, 1] (calculateGridSize 9 7 script_start)
        = Inr (calculateGridSize 9 7 script_start, [3, 1])
   \<and> 5 \<le> ROWS (calculateGridSize 9 7 script_start) \<and> 5 \<le> COLS (calculateGridSize 9 7 script_start)
   \<and> in_grid (calculateGridSize 9 7 script_start) (startPos (calculateGridSize 9 7 script_start))
   \<and> (\<exists>h' rng''. handleMazeGen (Some Spiral) [3, 1] (calculateGridSize 9 7 script_start) = Inr (h', rng''))"
proof -
  define G where "G = calculateGridSize 9 7 script_start"
  have G: "ROWS G = 7" "COLS G = 9" "startPos G = (5, 5)" "endPos G = (5, 8)"
    by (simp_all add: G_def calculateGridSize_def script_start_def createGrid_def)
  have h: "5 \<le> ROWS G" "5 \<le> COLS G" "in_grid G (startPos G)"
    by (simp_all add: G in_grid_def)
  have d: "(2::int) - 1 < 2 \<or> (7::int) - 1 < 2" by simp
  note inst = generators_in_bounds[of 2 1 7 1 "[3, 1]" G G "Some Spiral" "[3, 1]"]
  from inst d have "recursiveDivision 1 2 1 7 [3, 1] G = Inr (G, [3, 1])" by blast
  moreover from inst h have "\<exists>h' rng''. handleMazeGen (Some Spiral) [3, 1] G = Inr (h', rng'')" by blast
  ultimately show ?thesis using h d unfolding G_def by (intro conjI)
qed

section \<open>Correctness of the searches\<close>

text \<open>
  The cells are pairs; the quantified statements below are about cells as such, so the
  simplifier is kept from splitting them into rows and columns.
\<close>

declare split_paired_All [simp del] split_paired_Ex [simp del]

subsection \<open>Walks\<close>




text \<open>
  A walk is a non-empty sequence of cells of the grid in which consecutive cells are
  4-adjacent and every cell after the first is not a wall: the moves the three searches
  make (\<open>getNeighbors\<close>, then the \<^verbatim>\<open>isWall\<close> test). The first cell may be a
  wall, because no search tests the start cell. A walk of \<open>n\<close> cells has \<open>n - 1\<close> steps.
\<close>

definition adjacent :: "pos \<Rightarrow> pos \<Rightarrow> bool" where
  "adjacent p q = (\<bar>fst p - fst q\<bar> + \<bar>snd p - snd q\<bar> = 1)"

fun is_walk :: "state \<Rightarrow> pos list \<Rightarrow> bool" where
  "is_walk g [] = False"
| "is_walk g [p] = in_grid g p"
| "is_walk g (p # q # w) = (in_grid g p \<and> adjacent p q \<and> \<not> wall g q \<and> is_walk g (q # w))"

definition walk_from_to :: "state \<Rightarrow> pos \<Rightarrow> pos \<Rightarrow> pos list \<Rightarrow> bool" where
  "walk_from_to g s t w = (is_walk g w \<and> hd w = s \<and> last w = t)"

lemma adjacent_iff:
  "adjacent (r, c) q \<longleftrightarrow> q = (r - 1, c) \<or> q = (r, c + 1) \<or> q = (r + 1, c) \<or> q = (r, c - 1)"
proof (cases q)
  case (Pair a b)
  have "(\<bar>r - a\<bar> + \<bar>c - b\<bar> = 1) \<longleftrightarrow>
          (a = r - 1 \<and> b = c) \<or> (a = r \<and> b = c + 1) \<or> (a = r + 1 \<and> b = c) \<or> (a = r \<and> b = c - 1)"
    by linarith
  then show ?thesis by (simp add: adjacent_def Pair)
qed

lemma set_getNeighbors:
  "in_grid g p \<Longrightarrow> set (getNeighbors g p) = {q. in_grid g q \<and> adjacent p q}"
proof (cases p)
  case (Pair r c)
  assume "in_grid g p"
  then show ?thesis unfolding Pair adjacent_iff
    by (auto simp: getNeighbors_def in_grid_def Let_def)
qed

lemma distinct_getNeighbors: "distinct (getNeighbors g p)"
  by (auto simp: getNeighbors_def Let_def)

lemma self_not_neighbor: "p \<notin> set (getNeighbors g p)"
  by (cases p) (auto simp: getNeighbors_def Let_def)

lemma is_walk_same_walls: "same_walls g g' \<Longrightarrow> is_walk g' w = is_walk g w"
  by (induction g w rule: is_walk.induct)
     (simp_all add: same_walls_wall same_walls_in_grid)

lemma is_walk_snoc:
  "w \<noteq> [] \<Longrightarrow> is_walk g (w @ [v]) = (is_walk g w \<and> adjacent (last w) v \<and> \<not> wall g v \<and> in_grid g v)"
  by (induction g w rule: is_walk.induct) auto

lemma is_walk_nonempty: "is_walk g w \<Longrightarrow> w \<noteq> []"
  by auto

lemma is_walk_last_in_grid: "is_walk g w \<Longrightarrow> in_grid g (last w)"
  by (induction g w rule: is_walk.induct) auto

lemma heuristic_step: "adjacent p q \<Longrightarrow> heuristic p e \<le> Suc (heuristic q e)"
  by (auto simp: adjacent_def heuristic_def)

lemma heuristic_walk: "is_walk g (q # w) \<Longrightarrow> heuristic q e \<le> length w + heuristic (last (q # w)) e"
proof (induction w arbitrary: q)
  case Nil
  then show ?case by simp
next
  case (Cons r w)
  then have "adjacent q r" "is_walk g (r # w)" by simp_all
  from heuristic_step[OF this(1), of e] Cons.IH[OF this(2)] show ?case by simp
qed

lemma heuristic_zero: "heuristic p e = 0 \<longleftrightarrow> p = e"
  by (cases p; cases e) (auto simp: heuristic_def)

text \<open>
  The backpointers form a tree rooted at the start: the start has no predecessor, every
  other cell that is visited or in the frontier \<open>F\<close> is a cell of the grid that is not
  a wall and points to a visited 4-neighbour one level closer to the start (\<open>d\<close> is the
  level), and the cells not reached yet have no predecessor.
\<close>

definition tree_inv :: "state \<Rightarrow> pos \<Rightarrow> pos list \<Rightarrow> (pos \<Rightarrow> nat) \<Rightarrow> bool" where
  "tree_inv g s F d =
     (in_grid g s \<and> (visited g s \<or> s \<in> set F) \<and> prev g s = None \<and> d s = 0
      \<and> (\<forall>v. (visited g v \<or> v \<in> set F) \<and> v \<noteq> s \<longrightarrow>
            in_grid g v \<and> \<not> wall g v
            \<and> (\<exists>u. prev g v = Some u \<and> visited g u \<and> adjacent u v \<and> d v = Suc (d u)))
      \<and> (\<forall>v. \<not> visited g v \<and> v \<notin> set F \<longrightarrow> prev g v = None))"

lemma tree_inv_chain:
  assumes t: "tree_inv g s F d"
  shows "visited g v \<or> v \<in> set F \<Longrightarrow> d v = n \<Longrightarrow>
         \<exists>w. reconstruct g (Some v) acc = Some (w @ acc) \<and> walk_from_to g s v w \<and> length w = Suc n"
proof (induction n arbitrary: v acc)
  case 0
  have "v = s"
  proof (rule ccontr)
    assume "v \<noteq> s"
    with t 0(1) obtain u where "d v = Suc (d u)" unfolding tree_inv_def by blast
    with 0(2) show False by simp
  qed
  moreover have "reconstruct g (Some s) acc = Some ([s] @ acc)"
    using t by (simp add: tree_inv_def reconstruct_root)
  moreover have "walk_from_to g s s [s]" using t by (simp add: tree_inv_def walk_from_to_def)
  ultimately show ?case by auto
next
  case (Suc n)
  have vs: "v \<noteq> s" using t Suc(3) by (auto simp: tree_inv_def)
  with t Suc(2) obtain u where u: "prev g v = Some u" "visited g u" "adjacent u v" "d v = Suc (d u)"
    and v: "in_grid g v" "\<not> wall g v" unfolding tree_inv_def by blast
  from u Suc(3) have "d u = n" by simp
  from Suc.IH[OF disjI1[OF u(2)] this, of "v # acc"] obtain w where
    w: "reconstruct g (Some u) (v # acc) = Some (w @ v # acc)" "walk_from_to g s u w" "length w = Suc n"
    by blast
  have ne: "w \<noteq> []" using w(3) by auto
  have "reconstruct g (Some v) acc = Some ((w @ [v]) @ acc)"
    using u(1) w(1) by (subst reconstruct.simps) simp
  moreover have "walk_from_to g s v (w @ [v])"
    using w(2) ne u(3) v by (simp add: walk_from_to_def is_walk_snoc)
  ultimately show ?case using w(3) by (intro exI[of _ "w @ [v]"]) simp
qed

lemma tree_inv_reconstruct_total:
  assumes "tree_inv g s F d"
  shows "\<exists>w. reconstruct g (Some v) [] = Some w \<and> w \<noteq> [] \<and> last w = v
           \<and> (hd w = s \<longleftrightarrow> (visited g v \<or> v \<in> set F))"
proof (cases "visited g v \<or> v \<in> set F")
  case True
  from tree_inv_chain[OF assms True refl, of "[]"] True show ?thesis
    by (auto simp: walk_from_to_def)
next
  case False
  then have "prev g v = None" using assms by (simp add: tree_inv_def)
  then have "reconstruct g (Some v) [] = Some [v]" by (rule reconstruct_root)
  moreover have "v \<noteq> s" using False assms by (auto simp: tree_inv_def)
  ultimately show ?thesis using False by simp
qed

subsection \<open>The neighbour loops\<close>

lemma bfs_neighbors_queue:
  "distinct ns \<Longrightarrow> bfs_neighbors c ns g q = (g', q') \<Longrightarrow>
     q' = q @ filter (\<lambda>n. \<not> visited g n \<and> \<not> wall g n) ns"
proof (induction ns arbitrary: g q)
  case Nil
  then show ?case by simp
next
  case (Cons n ns)
  show ?case
  proof (cases "\<not> visited g n \<and> \<not> wall g n")
    case True
    let ?g1 = "update_cell n (\<lambda>x. x\<lparr>isVisited := True, previousNode := Some c\<rparr>) g"
    from True Cons.prems have "bfs_neighbors c ns ?g1 (q @ [n]) = (g', q')" by simp
    from Cons.IH[OF _ this] Cons.prems(1)
    have "q' = (q @ [n]) @ filter (\<lambda>m. \<not> visited ?g1 m \<and> \<not> wall ?g1 m) ns" by simp
    moreover have "filter (\<lambda>m. \<not> visited ?g1 m \<and> \<not> wall ?g1 m) ns
                     = filter (\<lambda>m. \<not> visited g m \<and> \<not> wall g m) ns"
      using Cons.prems(1) by (intro filter_cong) auto
    ultimately show ?thesis using True by simp
  next
    case False
    with Cons.prems have "bfs_neighbors c ns g q = (g', q')" by auto
    from Cons.IH[OF _ this] Cons.prems(1) False show ?thesis by auto
  qed
qed

lemma bfs_neighbors_visited:
  "bfs_neighbors c ns g q = (g', q') \<Longrightarrow>
     visited g' v = (visited g v \<or> (v \<in> set ns \<and> \<not> wall g v))"
proof (induction ns arbitrary: g q)
  case Nil
  then show ?case by simp
next
  case (Cons n ns)
  show ?case
  proof (cases "\<not> visited g n \<and> \<not> wall g n")
    case True
    let ?g1 = "update_cell n (\<lambda>x. x\<lparr>isVisited := True, previousNode := Some c\<rparr>) g"
    from True Cons.prems have "bfs_neighbors c ns ?g1 (q @ [n]) = (g', q')" by simp
    from Cons.IH[OF this] True show ?thesis by auto
  next
    case False
    with Cons.prems have "bfs_neighbors c ns g q = (g', q')" by auto
    from Cons.IH[OF this] False show ?thesis by auto
  qed
qed

lemma bfs_neighbors_prev:
  "bfs_neighbors c ns g q = (g', q') \<Longrightarrow>
     prev g' v = (if v \<in> set ns \<and> \<not> visited g v \<and> \<not> wall g v then Some c else prev g v)"
proof (induction ns arbitrary: g q)
  case Nil
  then show ?case by simp
next
  case (Cons n ns)
  show ?case
  proof (cases "\<not> visited g n \<and> \<not> wall g n")
    case True
    let ?g1 = "update_cell n (\<lambda>x. x\<lparr>isVisited := True, previousNode := Some c\<rparr>) g"
    from True Cons.prems have "bfs_neighbors c ns ?g1 (q @ [n]) = (g', q')" by simp
    from Cons.IH[OF this] True show ?thesis by auto
  next
    case False
    with Cons.prems have "bfs_neighbors c ns g q = (g', q')" by auto
    from Cons.IH[OF this] False show ?thesis by auto
  qed
qed

subsection \<open>The loop invariants of bfs and dfs\<close>

text \<open>
  Shared by BFS and DFS: the backpointer tree, and the visited cells are exactly the
  cells of the trace and of the frontier, none of them twice; the end cell is not in the
  trace while the loop runs.
\<close>

definition frontier_inv ::
  "state \<Rightarrow> pos \<Rightarrow> pos \<Rightarrow> (pos \<Rightarrow> nat) \<Rightarrow> pos list \<Rightarrow> pos list \<Rightarrow> bool" where
  "frontier_inv g s e d F tr =
     (tree_inv g s F d \<and> distinct (tr @ F) \<and> set (tr @ F) = {v. visited g v} \<and> e \<notin> set tr)"

lemma frontier_inv_in_grid:
  assumes "frontier_inv g s e d F tr" "visited g v"
  shows "in_grid g v"
  using assms unfolding frontier_inv_def tree_inv_def by (cases "v = s") blast+

lemma frontier_step:
  assumes inv: "frontier_inv g s e d F tr"
    and c: "c \<in> set F" and F': "set F' = set F - {c}" "distinct F'"
    and ce: "c \<noteq> e"
    and nb: "bfs_neighbors c (getNeighbors g c) g F' = (g', q')"
    and new: "new = filter (\<lambda>n. \<not> visited g n \<and> \<not> wall g n) (getNeighbors g c)"
  shows "frontier_inv g' s e (\<lambda>v. if v \<in> set new then Suc (d c) else d v) q' (tr @ [c])"
    and "q' = F' @ new"
    and "\<And>v. visited g' v = (visited g v \<or> v \<in> set new)"
proof -
  let ?d = "\<lambda>v. if v \<in> set new then Suc (d c) else d v"
  from inv have t: "tree_inv g s F d" and dist: "distinct (tr @ F)"
    and vis: "set (tr @ F) = {v. visited g v}" and etr: "e \<notin> set tr"
    by (simp_all add: frontier_inv_def)
  have cv: "visited g c" using c vis by auto
  have cg: "in_grid g c" using frontier_inv_in_grid[OF inv cv] .
  show q': "q' = F' @ new"
    using bfs_neighbors_queue[OF distinct_getNeighbors nb] new by simp
  have nset: "set new = {n. in_grid g n \<and> adjacent c n \<and> \<not> visited g n \<and> \<not> wall g n}"
    using set_getNeighbors[OF cg] new by auto
  show v': "visited g' v = (visited g v \<or> v \<in> set new)" for v
    using bfs_neighbors_visited[OF nb, of v] set_getNeighbors[OF cg] nset by auto
  have p': "prev g' v = (if v \<in> set new then Some c else prev g v)" for v
    using bfs_neighbors_prev[OF nb, of v] set_getNeighbors[OF cg] nset by auto
  have sw: "same_walls g g'" using bfs_neighbors_frame[OF nb] .
  have ig: "in_grid g' v = in_grid g v" for v using same_walls_in_grid[OF sw] .
  have wl: "wall g' v = wall g v" for v using same_walls_wall[OF sw] .
  have Fv: "v \<in> set F \<Longrightarrow> visited g v" for v using vis by auto
  have t1: "in_grid g s" "visited g s" "prev g s = None" "d s = 0"
    using t Fv unfolding tree_inv_def by blast+
  have t2: "\<exists>u. prev g v = Some u \<and> visited g u \<and> adjacent u v \<and> d v = Suc (d u)"
       "in_grid g v" "\<not> wall g v" if "visited g v" "v \<noteq> s" for v
    using t that unfolding tree_inv_def by blast+
  have t3: "prev g v = None" if "\<not> visited g v" for v
    using t that Fv unfolding tree_inv_def by blast
  have snew: "s \<notin> set new" using t1 nset by simp
  have cnew: "c \<notin> set new" using cv nset by simp
  have tree: "tree_inv g' s q' ?d"
    unfolding tree_inv_def
  proof (intro conjI allI impI)
    show "in_grid g' s" using t1 ig by simp
    show "visited g' s \<or> s \<in> set q'" using t1 v' by simp
    show "prev g' s = None" using t1 snew p' by simp
    show "?d s = 0" using t1 snew by simp
  next
    fix v assume a: "(visited g' v \<or> v \<in> set q') \<and> v \<noteq> s"
    have "v \<in> set q' \<Longrightarrow> visited g' v" using q' F' Fv[of v] v'[of v] by auto
    with a have vv: "visited g' v" and vs: "v \<noteq> s" by auto
    show "in_grid g' v" using vv vs t2(2)[of v] nset v'[of v] ig[of v] by auto
    show "\<not> wall g' v" using vv vs t2(3)[of v] nset v'[of v] wl[of v] by auto
    show "\<exists>u. prev g' v = Some u \<and> visited g' u \<and> adjacent u v \<and> ?d v = Suc (?d u)"
    proof (cases "v \<in> set new")
      case True
      then have "prev g' v = Some c" "visited g' c" "adjacent c v" "?d v = Suc (?d c)"
        using p'[of v] v'[of c] cv nset cnew by auto
      then show ?thesis by blast
    next
      case False
      then have "visited g v" using vv v' by simp
      from t2(1)[OF this vs] obtain u where
        u: "prev g v = Some u" "visited g u" "adjacent u v" "d v = Suc (d u)" by blast
      have "u \<notin> set new" using u(2) nset by simp
      then have "prev g' v = Some u" "visited g' u" "adjacent u v" "?d v = Suc (?d u)"
        using u False p'[of v] v'[of u] by auto
      then show ?thesis by blast
    qed
  next
    fix v assume "\<not> visited g' v \<and> v \<notin> set q'"
    then have "\<not> visited g v" "v \<notin> set new" using v'[of v] by auto
    then show "prev g' v = None" using p'[of v] t3[of v] by simp
  qed
  have dnew: "distinct new" using new distinct_getNeighbors by simp
  have disj: "set new \<inter> set (tr @ F) = {}" using vis nset by auto
  have "distinct ((tr @ [c]) @ q')"
    using dist c F' dnew disj unfolding q' by auto
  moreover have "set ((tr @ [c]) @ q') = {v. visited g' v}"
  proof (rule set_eqI)
    fix v show "v \<in> set ((tr @ [c]) @ q') \<longleftrightarrow> v \<in> {v. visited g' v}"
      using vis c F' v'[of v] unfolding q' by auto
  qed
  moreover have "e \<notin> set (tr @ [c])" using etr ce by simp
  ultimately show "frontier_inv g' s e ?d q' (tr @ [c])"
    using tree unfolding frontier_inv_def by blast
qed

text \<open>
  BFS only: the queue is sorted by level and spans at most two levels, the trace lies
  below the queue, and every cell of the trace has been expanded (its open neighbours are
  visited, at most one level further).
\<close>

definition bfs_order :: "state \<Rightarrow> (pos \<Rightarrow> nat) \<Rightarrow> pos list \<Rightarrow> pos list \<Rightarrow> bool" where
  "bfs_order g d queue tr =
     (sorted_wrt (\<lambda>u v. d u \<le> d v) queue
      \<and> (\<forall>v \<in> set queue. d v \<le> Suc (d (hd queue)))
      \<and> (\<forall>u \<in> set tr. \<forall>v \<in> set queue. d u \<le> d v)
      \<and> (\<forall>u \<in> set tr. \<forall>v. in_grid g v \<and> adjacent u v \<and> \<not> wall g v
            \<longrightarrow> visited g v \<and> d v \<le> Suc (d u)))"

lemma sorted_wrt_all: "(\<And>x y. x \<in> set xs \<Longrightarrow> y \<in> set xs \<Longrightarrow> P x y) \<Longrightarrow> sorted_wrt P xs"
  by (induction xs) auto

lemma bfs_order_step:
  assumes inv: "frontier_inv g s e d (c # rest) tr" and ord: "bfs_order g d (c # rest) tr"
    and nset: "set new = {n. in_grid g n \<and> adjacent c n \<and> \<not> visited g n \<and> \<not> wall g n}"
    and v': "\<And>v. visited g' v = (visited g v \<or> v \<in> set new)"
    and sw: "same_walls g g'"
  shows "bfs_order g' (\<lambda>v. if v \<in> set new then Suc (d c) else d v) (rest @ new) (tr @ [c])"
proof -
  define d' where "d' = (\<lambda>v. if v \<in> set new then Suc (d c) else d v)"
  have dn: "v \<in> set new \<Longrightarrow> d' v = Suc (d c)" for v by (simp add: d'_def)
  from inv have vis: "set (tr @ c # rest) = {v. visited g v}" by (simp add: frontier_inv_def)
  have old: "v \<in> set (tr @ c # rest) \<Longrightarrow> v \<notin> set new" for v using vis nset by auto
  then have dold: "v \<in> set (tr @ c # rest) \<Longrightarrow> d' v = d v" for v by (simp add: d'_def)
  have dnn: "v \<notin> set new \<Longrightarrow> d' v = d v" for v by (simp add: d'_def)
  from ord have o1: "sorted_wrt (\<lambda>u v. d u \<le> d v) (c # rest)"
    by (simp add: bfs_order_def)
  from ord have o2: "v \<in> set (c # rest) \<Longrightarrow> d v \<le> Suc (d c)" for v
    by (auto simp: bfs_order_def)
  from ord have o3: "u \<in> set tr \<Longrightarrow> v \<in> set (c # rest) \<Longrightarrow> d u \<le> d v" for u v
    by (auto simp: bfs_order_def)
  from ord have o4: "u \<in> set tr \<Longrightarrow> in_grid g v \<Longrightarrow> adjacent u v \<Longrightarrow> \<not> wall g v
                \<Longrightarrow> visited g v \<and> d v \<le> Suc (d u)" for u v
    unfolding bfs_order_def by blast
  have cmin: "v \<in> set rest \<Longrightarrow> d c \<le> d v" for v using o1 by simp
  have allv: "visited g v \<Longrightarrow> d v \<le> Suc (d c)" for v
  proof -
    assume "visited g v"
    then have "v \<in> set tr \<or> v \<in> set (c # rest)" using vis by auto
    then show ?thesis using o2[of v] o3[of v c] by auto
  qed
  have s1: "sorted_wrt (\<lambda>u v. d' u \<le> d' v) (rest @ new)"
    unfolding sorted_wrt_append
  proof (intro conjI ballI)
    have "sorted_wrt (\<lambda>u v. d u \<le> d v) rest" using o1 by simp
    then show "sorted_wrt (\<lambda>u v. d' u \<le> d' v) rest"
      by (rule sorted_wrt_mono_rel[rotated]) (simp add: dold)
    show "sorted_wrt (\<lambda>u v. d' u \<le> d' v) new" by (rule sorted_wrt_all) (simp add: dn)
  next
    fix x y assume "x \<in> set rest" "y \<in> set new"
    then show "d' x \<le> d' y" using dold[of x] o2[of x] dn[of y] by simp
  qed
  have s2: "\<forall>v \<in> set (rest @ new). d' v \<le> Suc (d' (hd (rest @ new)))"
  proof
    fix v assume v: "v \<in> set (rest @ new)"
    have vb: "d' v \<le> Suc (d c)" using v dold[of v] o2[of v] dn[of v] by auto
    show "d' v \<le> Suc (d' (hd (rest @ new)))"
    proof (cases rest)
      case Nil
      then have "new \<noteq> []" using v by auto
      then have "hd (rest @ new) \<in> set new" using Nil by simp
      then show ?thesis using vb dn[of "hd (rest @ new)"] by simp
    next
      case (Cons r rs)
      then have "hd (rest @ new) = r" "r \<in> set rest" by simp_all
      then show ?thesis using vb cmin[of r] dold[of r] by simp
    qed
  qed
  have s3: "\<forall>u \<in> set (tr @ [c]). \<forall>v \<in> set (rest @ new). d' u \<le> d' v"
  proof (intro ballI)
    fix u v assume u: "u \<in> set (tr @ [c])" and v: "v \<in> set (rest @ new)"
    have uc: "d u \<le> d c" using u o3[of u c] by auto
    have "d u \<le> d' v"
    proof (cases "v \<in> set new")
      case True
      then show ?thesis using uc dn[of v] by simp
    next
      case False
      then have "v \<in> set rest" using v by simp
      then show ?thesis using dnn[OF False] u o3[of u v] cmin[of v] by auto
    qed
    moreover have "d' u = d u" using dold[of u] u by auto
    ultimately show "d' u \<le> d' v" by simp
  qed
  have s4: "\<forall>u \<in> set (tr @ [c]). \<forall>v. in_grid g' v \<and> adjacent u v \<and> \<not> wall g' v
              \<longrightarrow> visited g' v \<and> d' v \<le> Suc (d' u)"
  proof (intro ballI allI impI)
    fix u v assume u: "u \<in> set (tr @ [c])" and "in_grid g' v \<and> adjacent u v \<and> \<not> wall g' v"
    then have a: "in_grid g v" "adjacent u v" "\<not> wall g v"
      using same_walls_in_grid[OF sw] same_walls_wall[OF sw] by simp_all
    have du: "d' u = d u" using dold[of u] u by auto
    show "visited g' v \<and> d' v \<le> Suc (d' u)"
    proof (cases "u = c")
      case True
      show ?thesis
      proof (cases "visited g v")
        case True
        then have "v \<notin> set new" using nset by simp
        with True \<open>u = c\<close> allv[of v] v'[of v] dnn[of v] du show ?thesis by simp
      next
        case False
        then have "v \<in> set new" using a \<open>u = c\<close> nset by simp
        then show ?thesis using v'[of v] \<open>u = c\<close> dn[of v] du by simp
      qed
    next
      case False
      then have "u \<in> set tr" using u by simp
      from o4[OF this a] have "visited g v" "d v \<le> Suc (d u)" by simp_all
      moreover from this have "v \<notin> set new" using nset by simp
      ultimately show ?thesis using v'[of v] du dnn[of v] by simp
    qed
  qed
  from s1 s2 s3 s4 have "bfs_order g' d' (rest @ new) (tr @ [c])"
    unfolding bfs_order_def by blast
  then show ?thesis by (simp add: d'_def)
qed

lemma bfs_walk_bound:
  assumes inv: "frontier_inv g s e d q tr" and ord: "bfs_order g d q tr" and ne: "q \<noteq> []"
  shows "is_walk g (u # w) \<Longrightarrow> visited g u \<Longrightarrow> d u + length w \<le> d (hd q) \<Longrightarrow>
           visited g (last (u # w)) \<and> d (last (u # w)) \<le> d u + length w"
proof (induction w arbitrary: u)
  case Nil
  then show ?case by simp
next
  case (Cons x w)
  from Cons.prems(1) have a: "in_grid g x" "adjacent u x" "\<not> wall g x" "is_walk g (x # w)"
    by (cases w; simp)+
  have hdmin: "v \<in> set q \<Longrightarrow> d (hd q) \<le> d v" for v
    using ord ne by (cases q) (auto simp: bfs_order_def)
  have "u \<notin> set q" using hdmin[of u] Cons.prems(3) by auto
  moreover have "u \<in> set (tr @ q)" using inv Cons.prems(2) by (simp add: frontier_inv_def)
  ultimately have "u \<in> set tr" by simp
  with ord a have x: "visited g x" "d x \<le> Suc (d u)" unfolding bfs_order_def by blast+
  have "d x + length w \<le> d (hd q)" using x(2) Cons.prems(3) by simp
  from Cons.IH[OF a(4) x(1) this] x(2) show ?case by simp
qed

lemma bfs_walk_closed:
  assumes inv: "frontier_inv g s e d [] tr" and ord: "bfs_order g d [] tr"
  shows "is_walk g (u # w) \<Longrightarrow> visited g u \<Longrightarrow> visited g (last (u # w))"
proof (induction w arbitrary: u)
  case Nil
  then show ?case by simp
next
  case (Cons x w)
  from Cons.prems(1) have a: "in_grid g x" "adjacent u x" "\<not> wall g x" "is_walk g (x # w)"
    by (cases w; simp)+
  have "u \<in> set tr" using inv Cons.prems(2) by (simp add: frontier_inv_def)
  with ord a have "visited g x" unfolding bfs_order_def by blast
  from Cons.IH[OF a(4) this] show ?case by simp
qed

text \<open>What holds of the result of \<open>bfs_loop\<close>, for either exit.\<close>

definition bfs_exit :: "pos \<Rightarrow> pos \<Rightarrow> pos list \<times> exit_kind \<times> state \<Rightarrow> bool" where
  "bfs_exit s e res =
     (\<exists>d q0 tr0. frontier_inv (snd (snd res)) s e d q0 tr0 \<and> bfs_order (snd (snd res)) d q0 tr0
        \<and> ((fst (snd res) = FrontierEmpty \<and> q0 = [] \<and> fst res = tr0)
           \<or> (fst (snd res) = ReachedEnd \<and> q0 \<noteq> [] \<and> hd q0 = e \<and> fst res = tr0 @ [e])))"

lemma bfs_loop_exit:
  assumes "bfs_loop e g q tr = Some res"
  shows "frontier_inv g s e d q tr \<Longrightarrow> bfs_order g d q tr \<Longrightarrow> bfs_exit s e res"
  using assms
proof (induction arbitrary: d rule: bfs_loop_pinduct)
  case (iter loop e g q tr res)
  show ?case
  proof (cases q)
    case Nil
    with iter.hyps have "res = (tr, FrontierEmpty, g)" by simp
    with iter.prems Nil show ?thesis unfolding bfs_exit_def by auto
  next
    case (Cons c rest)
    show ?thesis
    proof (cases "c = e")
      case True
      with iter.hyps Cons have "res = (tr @ [e], ReachedEnd, g)" by simp
      with iter.prems Cons True show ?thesis unfolding bfs_exit_def
        by (intro exI[of _ d] exI[of _ q] exI[of _ tr]) simp
    next
      case False
      obtain g1 q1 where nb: "bfs_neighbors c (getNeighbors g c) g rest = (g1, q1)"
        by (cases "bfs_neighbors c (getNeighbors g c) g rest")
      with Cons False iter.hyps have run: "loop e g1 q1 (tr @ [c]) = Some res" by simp
      define new where "new = filter (\<lambda>n. \<not> visited g n \<and> \<not> wall g n) (getNeighbors g c)"
      define d' where "d' = (\<lambda>v. if v \<in> set new then Suc (d c) else d v)"
      have inv: "frontier_inv g s e d (c # rest) tr" using iter.prems(1) Cons by simp
      have ord: "bfs_order g d (c # rest) tr" using iter.prems(2) Cons by simp
      have dq: "distinct (c # rest)" using inv by (simp add: frontier_inv_def)
      have f: "c \<in> set (c # rest)" "set rest = set (c # rest) - {c}" "distinct rest"
        using dq by auto
      have st: "frontier_inv g1 s e d' q1 (tr @ [c])" "q1 = rest @ new"
        "\<And>v. visited g1 v = (visited g v \<or> v \<in> set new)"
        using frontier_step[OF inv f False nb new_def] unfolding d'_def by blast+
      have cv: "visited g c" using inv by (auto simp: frontier_inv_def)
      have cg: "in_grid g c" using frontier_inv_in_grid[OF inv cv] .
      have nset: "set new = {n. in_grid g n \<and> adjacent c n \<and> \<not> visited g n \<and> \<not> wall g n}"
        using set_getNeighbors[OF cg] new_def by auto
      have "bfs_order g1 d' (rest @ new) (tr @ [c])"
        using bfs_order_step[OF inv ord nset st(3) bfs_neighbors_frame[OF nb]]
        unfolding d'_def by simp
      with st(2) have "bfs_order g1 d' q1 (tr @ [c])" by simp
      from iter.IH[OF run st(1) this] show ?thesis .
    qed
  qed
qed

lemma dfs_loop_exit:
  assumes "dfs_loop e g q tr = Some res"
  shows "frontier_inv g s e d q tr \<Longrightarrow>
     \<exists>d' q0 tr0. frontier_inv (snd (snd res)) s e d' q0 tr0
        \<and> ((fst (snd res) = FrontierEmpty \<and> q0 = [] \<and> fst res = tr0)
           \<or> (fst (snd res) = ReachedEnd \<and> e \<in> set q0 \<and> fst res = tr0 @ [e]))"
  using assms
proof (induction arbitrary: d rule: dfs_loop_pinduct)
  case (iter loop e g q tr res)
  show ?case
  proof (cases "q = []")
    case True
    with iter.hyps have "res = (tr, FrontierEmpty, g)" by simp
    with iter.prems True show ?thesis by auto
  next
    case ne: False
    define c where "c = last q"
    define rest where "rest = butlast q"
    have q: "q = rest @ [c]" using ne by (simp add: c_def rest_def)
    show ?thesis
    proof (cases "c = e")
      case True
      with iter.hyps ne have "res = (tr @ [e], ReachedEnd, g)" by (simp add: c_def Let_def)
      moreover have "e \<in> set q" using q True by simp
      ultimately show ?thesis using iter.prems
        by (intro exI[of _ d] exI[of _ q] exI[of _ tr]) simp
    next
      case False
      obtain g1 q1 where nb: "bfs_neighbors c (getNeighbors g c) g rest = (g1, q1)"
        by (cases "bfs_neighbors c (getNeighbors g c) g rest")
      with ne False iter.hyps have run: "loop e g1 q1 (tr @ [c]) = Some res"
        by (simp add: Let_def dfs_neighbors_eq c_def[symmetric] rest_def[symmetric])
      define new where "new = filter (\<lambda>n. \<not> visited g n \<and> \<not> wall g n) (getNeighbors g c)"
      have dq: "distinct (rest @ [c])" using iter.prems q by (simp add: frontier_inv_def)
      have f: "c \<in> set q" "set rest = set q - {c}" "distinct rest"
        using dq q by auto
      have "frontier_inv g1 s e (\<lambda>v. if v \<in> set new then Suc (d c) else d v) q1 (tr @ [c])"
        by (rule frontier_step(1)[OF iter.prems f False nb new_def])
      from iter.IH[OF run this] show ?thesis .
    qed
  qed
qed

subsection \<open>The loop invariant of astar\<close>

text \<open>The neighbours whose cost the relaxation loop of \<open>astar\<close> lowers.\<close>

definition improved :: "state \<Rightarrow> pos \<Rightarrow> pos \<Rightarrow> bool" where
  "improved g c n = (\<not> wall g n \<and> \<not> visited g n \<and> gcost g c + 1 < gcost g n)"

lemma astar_neighbors_char:
  assumes "distinct ns" "c \<notin> set ns" "astar_neighbors e c ns g q = (g', q')"
  shows "(\<forall>v. gcost g' v = (if v \<in> set ns \<and> improved g c v then gcost g c + 1 else gcost g v))
       \<and> (\<forall>v. fcost g' v = (if v \<in> set ns \<and> improved g c v
                              then gcost g c + 1 + enat (heuristic v e) else fcost g v))
       \<and> (\<forall>v. prev g' v = (if v \<in> set ns \<and> improved g c v then Some c else prev g v))
       \<and> (\<forall>v. visited g' v = visited g v)
       \<and> q' = q @ filter (\<lambda>n. improved g c n \<and> n \<notin> set q) ns"
  using assms
proof (induction ns arbitrary: g q)
  case Nil
  then show ?case by simp
next
  case (Cons n ns)
  let ?t = "gcost g c + 1"
  let ?g1 = "update_cell n (\<lambda>x. x\<lparr>previousNode := Some c, gCost := ?t,
                   fCost := ?t + enat (heuristic n e)\<rparr>) g"
  let ?q1 = "if n \<in> set q then q else q @ [n]"
  from Cons.prems have d: "distinct ns" "c \<notin> set ns" "n \<notin> set ns" "c \<noteq> n" by auto
  show ?case
  proof (cases "improved g c n")
    case True
    with Cons.prems(3) have run: "astar_neighbors e c ns ?g1 ?q1 = (g', q')"
      by (simp add: improved_def Let_def)
    have imp: "improved ?g1 c m = improved g c m" if "m \<in> set ns" for m
      using that d by (auto simp: improved_def)
    have gc: "gcost ?g1 c = gcost g c" using d by simp
    note ih = Cons.IH[OF d(1,2) run]
    have 1: "gcost g' v = (if v \<in> set (n # ns) \<and> improved g c v then ?t else gcost g v)" for v
      using ih imp[of v] gc True d by (cases "v = n") auto
    have 2: "fcost g' v = (if v \<in> set (n # ns) \<and> improved g c v
                            then ?t + enat (heuristic v e) else fcost g v)" for v
      using ih imp[of v] gc True d by (cases "v = n") auto
    have 3: "prev g' v = (if v \<in> set (n # ns) \<and> improved g c v then Some c else prev g v)" for v
      using ih imp[of v] gc True d by (cases "v = n") auto
    have 4: "visited g' v = visited g v" for v
      using ih by (cases "v = n") auto
    have "filter (\<lambda>m. improved ?g1 c m \<and> m \<notin> set ?q1) ns
            = filter (\<lambda>m. improved g c m \<and> m \<notin> set q) ns"
      using d imp by (intro filter_cong) auto
    with ih True have 5: "q' = q @ filter (\<lambda>m. improved g c m \<and> m \<notin> set q) (n # ns)"
      by simp
    from 1 2 3 4 5 show ?thesis by blast
  next
    case False
    with Cons.prems(3) have run: "astar_neighbors e c ns g q = (g', q')"
      by (auto simp: improved_def Let_def split: if_splits)
    note ih = Cons.IH[OF d(1,2) run]
    from ih False show ?thesis by auto
  qed
qed

text \<open>
  The level of a cell is its \<^verbatim>\<open>gCost\<close>. The invariant of the A* loop: the backpointer
  tree; finite costs on the reached cells with \<^verbatim>\<open>fCost = gCost + heuristic\<close> on the
  open set; no duplicates in the open set or in the trace; the cost of a visited cell is
  the length of a shortest walk to it; and no visited cell has an \<^verbatim>\<open>fCost\<close> above the
  length of a walk from start to end. \<open>expanded\<close> says that the open neighbours of the
  cells in \<open>U\<close> have been relaxed.
\<close>

definition gdepth :: "state \<Rightarrow> pos \<Rightarrow> nat" where
  "gdepth g v = the_enat (gcost g v)"

definition expanded :: "state \<Rightarrow> pos list \<Rightarrow> pos set \<Rightarrow> bool" where
  "expanded g openSet U =
     (\<forall>u \<in> U. \<forall>v. in_grid g v \<and> adjacent u v \<and> \<not> wall g v
        \<longrightarrow> (visited g v \<or> v \<in> set openSet) \<and> gdepth g v \<le> Suc (gdepth g u))"

definition astar_core :: "state \<Rightarrow> pos \<Rightarrow> pos \<Rightarrow> pos list \<Rightarrow> pos list \<Rightarrow> bool" where
  "astar_core g s e openSet tr =
     (tree_inv g s openSet (gdepth g)
      \<and> (\<forall>v. visited g v \<or> v \<in> set openSet \<longrightarrow> gcost g v = enat (gdepth g v))
      \<and> (\<forall>v \<in> set openSet. fcost g v = enat (gdepth g v + heuristic v e))
      \<and> (\<forall>v. \<not> visited g v \<and> v \<notin> set openSet \<longrightarrow> gcost g v = \<infinity>)
      \<and> distinct openSet \<and> (\<forall>v \<in> set openSet. \<not> visited g v)
      \<and> distinct tr \<and> set tr = {v. visited g v}
      \<and> (visited g s \<or> (\<forall>v. \<not> visited g v))
      \<and> (\<forall>u w. visited g u \<and> walk_from_to g s u w \<longrightarrow> Suc (gdepth g u) \<le> length w)
      \<and> (\<forall>u w. visited g u \<and> walk_from_to g s e w
            \<longrightarrow> Suc (gdepth g u + heuristic u e) \<le> length w))"

definition astar_inv :: "state \<Rightarrow> pos \<Rightarrow> pos \<Rightarrow> pos list \<Rightarrow> pos list \<Rightarrow> bool" where
  "astar_inv g s e openSet tr =
     (astar_core g s e openSet tr \<and> e \<notin> set tr \<and> expanded g openSet {u. visited g u})"

lemma astar_open_bound:
  assumes core: "astar_core g s e openSet tr" and ex: "expanded g openSet {u. visited g u}"
  shows "is_walk g (u # w) \<Longrightarrow> visited g u \<Longrightarrow> \<not> visited g (last (u # w)) \<Longrightarrow>
           \<exists>x \<in> set openSet. gdepth g x + heuristic x e
                 \<le> gdepth g u + length w + heuristic (last (u # w)) e"
proof (induction w arbitrary: u)
  case Nil
  then show ?case by simp
next
  case (Cons q w)
  from Cons.prems(1) have a: "in_grid g q" "adjacent u q" "\<not> wall g q" "is_walk g (q # w)"
    by (cases w; simp)+
  from ex Cons.prems(2) a have q: "visited g q \<or> q \<in> set openSet" "gdepth g q \<le> Suc (gdepth g u)"
    unfolding expanded_def by blast+
  show ?case
  proof (cases "visited g q")
    case True
    from Cons.IH[OF a(4) True] Cons.prems(3) obtain x where
      "x \<in> set openSet" "gdepth g x + heuristic x e \<le> gdepth g q + length w + heuristic (last (q # w)) e"
      by auto
    with q(2) show ?thesis by (intro bexI[of _ x]) auto
  next
    case False
    with q(1) have "q \<in> set openSet" by simp
    moreover have "heuristic q e \<le> length w + heuristic (last (q # w)) e"
      using heuristic_walk[OF a(4)] .
    ultimately show ?thesis using q(2) by (intro bexI[of _ q]) auto
  qed
qed

lemma tree_inv_transfer:
  assumes t: "tree_inv g s F d"
    and R: "\<And>v. (visited g' v \<or> v \<in> set F') = (visited g v \<or> v \<in> set F)"
    and mono: "\<And>v. visited g v \<Longrightarrow> visited g' v"
    and p: "\<And>v. prev g' v = prev g v"
    and sw: "same_walls g g'"
  shows "tree_inv g' s F' d"
  unfolding tree_inv_def
proof (intro conjI allI impI)
  show "in_grid g' s" using t same_walls_in_grid[OF sw] by (simp add: tree_inv_def)
  show "visited g' s \<or> s \<in> set F'" using t R[of s] by (simp add: tree_inv_def)
  show "prev g' s = None" using t p by (simp add: tree_inv_def)
  show "d s = 0" using t by (simp add: tree_inv_def)
next
  fix v assume "(visited g' v \<or> v \<in> set F') \<and> v \<noteq> s"
  then have a: "(visited g v \<or> v \<in> set F) \<and> v \<noteq> s" using R[of v] by simp
  with t have b: "in_grid g v" "\<not> wall g v"
    "\<exists>u. prev g v = Some u \<and> visited g u \<and> adjacent u v \<and> d v = Suc (d u)"
    unfolding tree_inv_def by blast+
  show "in_grid g' v" using b(1) same_walls_in_grid[OF sw] by simp
  show "\<not> wall g' v" using b(2) same_walls_wall[OF sw] by simp
  from b(3) obtain u where "prev g v = Some u" "visited g u" "adjacent u v" "d v = Suc (d u)"
    by blast
  then have "prev g' v = Some u \<and> visited g' u \<and> adjacent u v \<and> d v = Suc (d u)"
    using p[of v] mono[of u] by simp
  then show "\<exists>u. prev g' v = Some u \<and> visited g' u \<and> adjacent u v \<and> d v = Suc (d u)" ..
next
  fix v assume "\<not> visited g' v \<and> v \<notin> set F'"
  then have "\<not> visited g v \<and> v \<notin> set F" using R[of v] by simp
  with t show "prev g' v = None" using p[of v] unfolding tree_inv_def by simp
qed

lemma gdepth_cong: "gcost g' v = gcost g v \<Longrightarrow> gdepth g' v = gdepth g v"
  by (simp add: gdepth_def)

lemma walk_from_to_same_walls: "same_walls g g' \<Longrightarrow> walk_from_to g' s t w = walk_from_to g s t w"
  by (simp add: walk_from_to_def is_walk_same_walls)

lemma astar_pop:
  assumes inv: "astar_inv g s e openSet tr" and srt: "sort_key (fcost g) openSet = c # rest"
    and g1: "g1 = update_cell c (\<lambda>x. x\<lparr>isVisited := True\<rparr>) g"
  shows "\<not> visited g c" and "astar_core g1 s e rest (tr @ [c])"
    and "expanded g1 rest (set tr)" and "c \<notin> set rest" and "in_grid g c"
proof -
  from inv have core: "astar_core g s e openSet tr" and etr: "e \<notin> set tr"
    and ex: "expanded g openSet {u. visited g u}" by (simp_all add: astar_inv_def)
  from core have t: "tree_inv g s openSet (gdepth g)"
    and fin: "\<And>v. visited g v \<or> v \<in> set openSet \<Longrightarrow> gcost g v = enat (gdepth g v)"
    and fc: "\<And>v. v \<in> set openSet \<Longrightarrow> fcost g v = enat (gdepth g v + heuristic v e)"
    and inf: "\<And>v. \<not> visited g v \<Longrightarrow> v \<notin> set openSet \<Longrightarrow> gcost g v = \<infinity>"
    and dO: "distinct openSet" and Ov: "\<And>v. v \<in> set openSet \<Longrightarrow> \<not> visited g v"
    and dtr: "distinct tr" and str: "set tr = {v. visited g v}"
    and a9: "visited g s \<or> (\<forall>v. \<not> visited g v)"
    and a6: "\<And>u w. visited g u \<Longrightarrow> walk_from_to g s u w \<Longrightarrow> Suc (gdepth g u) \<le> length w"
    and a7: "\<And>u w. visited g u \<Longrightarrow> walk_from_to g s e w
               \<Longrightarrow> Suc (gdepth g u + heuristic u e) \<le> length w"
    unfolding astar_core_def by blast+
  have setO: "set openSet = insert c (set rest)"
    using srt set_sort[of "fcost g" openSet] by simp
  have dcr: "distinct (c # rest)" using srt dO distinct_sort[of "fcost g" openSet] by simp
  show crest: "c \<notin> set rest" using dcr by simp
  have cO: "c \<in> set openSet" using setO by simp
  show cv: "\<not> visited g c" using Ov[OF cO] .
  have "sorted (map (fcost g) (c # rest))" using sorted_sort_key[of "fcost g" openSet] srt by simp
  then have fmin: "x \<in> set openSet \<Longrightarrow> fcost g c \<le> fcost g x" for x
    using setO by auto
  have dmin: "x \<in> set openSet \<Longrightarrow> gdepth g c + heuristic c e \<le> gdepth g x + heuristic x e" for x
    using fmin[of x] fc[of x] fc[OF cO] by simp
  have sw: "same_walls g g1" unfolding g1 by (rule same_walls_update_cell) simp
  have v1: "visited g1 v = (v = c \<or> visited g v)" for v by (simp add: g1)
  have p1: "prev g1 v = prev g v" for v by (simp add: g1)
  have gc1: "gcost g1 v = gcost g v" for v by (simp add: g1)
  have f1: "fcost g1 v = fcost g v" for v by (simp add: g1)
  have gd1: "gdepth g1 v = gdepth g v" for v by (simp add: gdepth_def gc1)
  have gd1': "gdepth g1 = gdepth g" using gd1 by auto
  have R1: "(visited g1 v \<or> v \<in> set rest) = (visited g v \<or> v \<in> set openSet)" for v
    using v1[of v] setO by auto
  have wk: "walk_from_to g1 a b w = walk_from_to g a b w" for a b w
    using walk_from_to_same_walls[OF sw] .
  show cg: "in_grid g c" using t cO unfolding tree_inv_def by (cases "c = s") blast+
  have t1: "tree_inv g1 s rest (gdepth g1)"
    unfolding gd1' by (rule tree_inv_transfer[OF t R1 _ p1 sw]) (simp add: v1)
  have s0: "gdepth g s = 0" using t by (simp add: tree_inv_def)
  have vs: "c \<noteq> s \<Longrightarrow> visited g s"
  proof -
    assume "c \<noteq> s"
    with t cO obtain u where "visited g u" unfolding tree_inv_def by blast
    with a9 show ?thesis by blast
  qed
  have opt: "gdepth g c + heuristic c e \<le> length w + heuristic t e"
    if w: "is_walk g (s # w)" "last (s # w) = t" "\<not> visited g t" for w t
  proof (cases "visited g s")
    case True
    from astar_open_bound[OF core ex w(1) True] w(2,3) obtain x where
      "x \<in> set openSet" "gdepth g x + heuristic x e \<le> gdepth g s + length w + heuristic t e"
      by auto
    with dmin[of x] s0 show ?thesis by simp
  next
    case False
    then have "c = s" using vs by blast
    with s0 heuristic_walk[OF w(1), of e] w(2) show ?thesis by simp
  qed
  have a6': "Suc (gdepth g1 u) \<le> length w" if "visited g1 u" "walk_from_to g1 s u w" for u w
  proof (cases "u = c")
    case True
    from that(2) have "walk_from_to g s c w" using True by (simp add: wk)
    then have ww: "is_walk g w" "hd w = s" "last w = c" by (simp_all add: walk_from_to_def)
    then obtain w' where w': "w = s # w'" by (cases w) auto
    from opt[of w' c] ww w' cv have "gdepth g c \<le> length w'" by simp
    then show ?thesis using True w' gd1 by simp
  next
    case False
    with that a6[of u w] show ?thesis by (simp add: v1 wk gd1)
  qed
  have a7': "Suc (gdepth g1 u + heuristic u e) \<le> length w"
    if "visited g1 u" "walk_from_to g1 s e w" for u w
  proof (cases "u = c")
    case True
    from that(2) have "walk_from_to g s e w" by (simp add: wk)
    then have ww: "is_walk g w" "hd w = s" "last w = e" by (simp_all add: walk_from_to_def)
    then obtain w' where w': "w = s # w'" by (cases w) auto
    have "\<not> visited g e" using etr str by simp
    from opt[of w' e] ww w' this have "gdepth g c + heuristic c e \<le> length w'"
      by (simp add: heuristic_zero[THEN iffD2])
    then show ?thesis using True w' gd1 by simp
  next
    case False
    with that a7[of u w] show ?thesis by (simp add: v1 wk gd1)
  qed
  show "astar_core g1 s e rest (tr @ [c])"
    unfolding astar_core_def
  proof (intro conjI allI impI ballI)
    show "tree_inv g1 s rest (gdepth g1)" by (rule t1)
    show "distinct rest" using dcr by simp
    show "distinct (tr @ [c])" using dtr str cv by simp
    show "set (tr @ [c]) = {v. visited g1 v}" using str v1 by auto
    show "visited g1 s \<or> (\<forall>v. \<not> visited g1 v)" using vs v1[of s] by blast
  next
    fix v assume "visited g1 v \<or> v \<in> set rest"
    then show "gcost g1 v = enat (gdepth g1 v)" using R1[of v] fin[of v] gc1 gd1 by simp
  next
    fix v assume "v \<in> set rest"
    then show "fcost g1 v = enat (gdepth g1 v + heuristic v e)" using setO fc[of v] f1 gd1 by simp
  next
    fix v assume "\<not> visited g1 v \<and> v \<notin> set rest"
    then show "gcost g1 v = \<infinity>" using R1[of v] inf[of v] gc1 by simp
  next
    fix v assume "v \<in> set rest"
    then show "\<not> visited g1 v" using setO Ov[of v] crest v1[of v] by auto
  next
    fix u w assume "visited g1 u \<and> walk_from_to g1 s u w"
    then show "Suc (gdepth g1 u) \<le> length w" using a6' by blast
  next
    fix u w assume "visited g1 u \<and> walk_from_to g1 s e w"
    then show "Suc (gdepth g1 u + heuristic u e) \<le> length w" using a7' by blast
  qed
  show "expanded g1 rest (set tr)"
    unfolding expanded_def
  proof (intro ballI allI impI)
    fix u v assume u: "u \<in> set tr" and "in_grid g1 v \<and> adjacent u v \<and> \<not> wall g1 v"
    then have "in_grid g v \<and> adjacent u v \<and> \<not> wall g v"
      using same_walls_in_grid[OF sw] same_walls_wall[OF sw] by simp
    moreover have "visited g u" using u str by simp
    ultimately have "(visited g v \<or> v \<in> set openSet) \<and> gdepth g v \<le> Suc (gdepth g u)"
      using ex unfolding expanded_def by blast
    then show "(visited g1 v \<or> v \<in> set rest) \<and> gdepth g1 v \<le> Suc (gdepth g1 u)"
      using R1[of v] gd1 by simp
  qed
qed

lemma astar_expand:
  assumes core: "astar_core g1 s e rest trc" and cv: "visited g1 c" and cg: "in_grid g1 c"
    and exold: "expanded g1 rest U" and U: "\<And>u. u \<in> U \<Longrightarrow> visited g1 u"
    and nb: "astar_neighbors e c (getNeighbors g1 c) g1 rest = (g2, q2)"
  shows "astar_core g2 s e q2 trc" and "expanded g2 q2 (insert c U)"
proof -
  from core have t: "tree_inv g1 s rest (gdepth g1)"
    and fin: "\<And>v. visited g1 v \<or> v \<in> set rest \<Longrightarrow> gcost g1 v = enat (gdepth g1 v)"
    and fc: "\<And>v. v \<in> set rest \<Longrightarrow> fcost g1 v = enat (gdepth g1 v + heuristic v e)"
    and inf: "\<And>v. \<not> visited g1 v \<Longrightarrow> v \<notin> set rest \<Longrightarrow> gcost g1 v = \<infinity>"
    and dO: "distinct rest" and Ov: "\<And>v. v \<in> set rest \<Longrightarrow> \<not> visited g1 v"
    and dtr: "distinct trc" and str: "set trc = {v. visited g1 v}"
    and a9: "visited g1 s \<or> (\<forall>v. \<not> visited g1 v)"
    and a6: "\<And>u w. visited g1 u \<Longrightarrow> walk_from_to g1 s u w \<Longrightarrow> Suc (gdepth g1 u) \<le> length w"
    and a7: "\<And>u w. visited g1 u \<Longrightarrow> walk_from_to g1 s e w
               \<Longrightarrow> Suc (gdepth g1 u + heuristic u e) \<le> length w"
    unfolding astar_core_def by blast+
  define I where "I = {v \<in> set (getNeighbors g1 c). improved g1 c v}"
  define T where "T = Suc (gdepth g1 c)"
  have gc: "gcost g1 c = enat (gdepth g1 c)" using fin[of c] cv by simp
  then have Tc: "gcost g1 c + 1 = enat T" by (simp add: T_def one_enat_def)
  note ch = astar_neighbors_char[OF distinct_getNeighbors self_not_neighbor nb]
  have g2c: "gcost g2 v = (if v \<in> I then enat T else gcost g1 v)" for v
    using ch Tc by (simp add: I_def)
  have f2: "fcost g2 v = (if v \<in> I then enat (T + heuristic v e) else fcost g1 v)" for v
    using ch Tc by (simp add: I_def)
  have p2: "prev g2 v = (if v \<in> I then Some c else prev g1 v)" for v
    using ch by (simp add: I_def)
  have v2: "visited g2 v = visited g1 v" for v using ch by simp
  have q2: "q2 = rest @ filter (\<lambda>n. improved g1 c n \<and> n \<notin> set rest) (getNeighbors g1 c)"
    using ch by simp
  have setq2: "set q2 = set rest \<union> I" unfolding q2 I_def by auto
  have gd2: "gdepth g2 v = (if v \<in> I then T else gdepth g1 v)" for v
    by (simp add: gdepth_def g2c)
  have sw: "same_walls g1 g2" using astar_neighbors_frame[OF nb] .
  have ig: "in_grid g2 v = in_grid g1 v" for v using same_walls_in_grid[OF sw] .
  have wl: "wall g2 v = wall g1 v" for v using same_walls_wall[OF sw] .
  have wk: "walk_from_to g2 a b w = walk_from_to g1 a b w" for a b w
    using walk_from_to_same_walls[OF sw] .
  have Iprops: "in_grid g1 v" "adjacent c v" "\<not> wall g1 v" "\<not> visited g1 v" "enat T < gcost g1 v"
    if "v \<in> I" for v
    using that set_getNeighbors[OF cg] Tc by (auto simp: I_def improved_def)
  have vI: "visited g1 v \<Longrightarrow> v \<notin> I" for v using Iprops(4)[of v] by blast
  have sv: "visited g1 s" using a9 cv by blast
  have R2: "(visited g2 v \<or> v \<in> set q2) = (visited g1 v \<or> v \<in> set rest \<or> v \<in> I)" for v
    using v2 setq2 by auto
  have t2: "tree_inv g2 s q2 (gdepth g2)"
    unfolding tree_inv_def
  proof (intro conjI allI impI)
    show "in_grid g2 s" using t ig by (simp add: tree_inv_def)
    show "visited g2 s \<or> s \<in> set q2" using sv v2 by simp
    show "prev g2 s = None" using t p2[of s] vI[OF sv] by (simp add: tree_inv_def)
    show "gdepth g2 s = 0" using t gd2[of s] vI[OF sv] by (simp add: tree_inv_def)
  next
    fix v assume a: "(visited g2 v \<or> v \<in> set q2) \<and> v \<noteq> s"
    show "in_grid g2 v"
    proof (cases "v \<in> I")
      case True then show ?thesis using Iprops(1) ig by simp
    next
      case False
      with a R2[of v] t show ?thesis unfolding tree_inv_def ig by blast
    qed
    show "\<not> wall g2 v"
    proof (cases "v \<in> I")
      case True then show ?thesis using Iprops(3) wl by simp
    next
      case False
      with a R2[of v] t show ?thesis unfolding tree_inv_def wl by blast
    qed
    show "\<exists>u. prev g2 v = Some u \<and> visited g2 u \<and> adjacent u v \<and> gdepth g2 v = Suc (gdepth g2 u)"
    proof (cases "v \<in> I")
      case True
      then have "prev g2 v = Some c \<and> visited g2 c \<and> adjacent c v \<and> gdepth g2 v = Suc (gdepth g2 c)"
        using p2[of v] v2[of c] cv Iprops(2)[of v] gd2[of v] gd2[of c] vI[OF cv] by (simp add: T_def)
      then show ?thesis ..
    next
      case False
      with a R2[of v] t obtain u where
        u: "prev g1 v = Some u" "visited g1 u" "adjacent u v" "gdepth g1 v = Suc (gdepth g1 u)"
        unfolding tree_inv_def by blast
      then have "prev g2 v = Some u \<and> visited g2 u \<and> adjacent u v \<and> gdepth g2 v = Suc (gdepth g2 u)"
        using False p2[of v] v2[of u] gd2[of v] gd2[of u] vI[of u] by simp
      then show ?thesis ..
    qed
  next
    fix v assume "\<not> visited g2 v \<and> v \<notin> set q2"
    then have "\<not> visited g1 v" "v \<notin> set rest" "v \<notin> I" using R2[of v] by auto
    then show "prev g2 v = None" using t p2[of v] unfolding tree_inv_def by simp
  qed
  show "astar_core g2 s e q2 trc"
    unfolding astar_core_def
  proof (intro conjI allI impI ballI)
    show "tree_inv g2 s q2 (gdepth g2)" by (rule t2)
    show "distinct q2" unfolding q2 using dO distinct_getNeighbors[of g1 c] by auto
    show "distinct trc" by (rule dtr)
    show "set trc = {v. visited g2 v}" using str v2 by simp
    show "visited g2 s \<or> (\<forall>v. \<not> visited g2 v)" using sv v2 by simp
  next
    fix v assume "visited g2 v \<or> v \<in> set q2"
    then show "gcost g2 v = enat (gdepth g2 v)"
      using R2[of v] fin[of v] g2c[of v] gd2[of v] by auto
  next
    fix v assume "v \<in> set q2"
    then show "fcost g2 v = enat (gdepth g2 v + heuristic v e)"
      using setq2 fc[of v] f2[of v] gd2[of v] by auto
  next
    fix v assume "\<not> visited g2 v \<and> v \<notin> set q2"
    then show "gcost g2 v = \<infinity>" using R2[of v] inf[of v] g2c[of v] by auto
  next
    fix v assume "v \<in> set q2"
    then show "\<not> visited g2 v" using setq2 Ov[of v] Iprops(4)[of v] v2[of v] by auto
  next
    fix u w assume "visited g2 u \<and> walk_from_to g2 s u w"
    then show "Suc (gdepth g2 u) \<le> length w"
      using a6[of u w] v2[of u] wk gd2[of u] vI[of u] by simp
  next
    fix u w assume "visited g2 u \<and> walk_from_to g2 s e w"
    then show "Suc (gdepth g2 u + heuristic u e) \<le> length w"
      using a7[of u w] v2[of u] wk gd2[of u] vI[of u] by simp
  qed
  show "expanded g2 q2 (insert c U)"
    unfolding expanded_def
  proof (intro ballI allI impI)
    fix u v assume u: "u \<in> insert c U" and "in_grid g2 v \<and> adjacent u v \<and> \<not> wall g2 v"
    then have a: "in_grid g1 v" "adjacent u v" "\<not> wall g1 v" using ig wl by simp_all
    have uv: "visited g1 u" using u cv U[of u] by auto
    have du: "gdepth g2 u = gdepth g1 u" using gd2[of u] vI[OF uv] by simp
    show "(visited g2 v \<or> v \<in> set q2) \<and> gdepth g2 v \<le> Suc (gdepth g2 u)"
    proof (cases "v \<in> I")
      case True
      have "gdepth g2 v \<le> Suc (gdepth g1 u)"
      proof (cases "u = c")
        case True
        with \<open>v \<in> I\<close> gd2[of v] show ?thesis by (simp add: T_def)
      next
        case False
        then have "u \<in> U" using u by simp
        with exold a have "(visited g1 v \<or> v \<in> set rest)" "gdepth g1 v \<le> Suc (gdepth g1 u)"
          unfolding expanded_def by blast+
        moreover from this fin[of v] Iprops(5)[OF True] have "T < gdepth g1 v" by simp
        ultimately show ?thesis using gd2[of v] True by simp
      qed
      with True R2[of v] du show ?thesis by auto
    next
      case nI: False
      then have dv: "gdepth g2 v = gdepth g1 v" using gd2[of v] by simp
      have "(visited g1 v \<or> v \<in> set rest) \<and> gdepth g1 v \<le> Suc (gdepth g1 u)"
      proof (cases "u = c")
        case False
        then have "u \<in> U" using u by simp
        with exold a show ?thesis unfolding expanded_def by blast
      next
        case True
        have vN: "v \<in> set (getNeighbors g1 c)" using set_getNeighbors[OF cg] a True by simp
        show ?thesis
        proof (cases "visited g1 v")
          case True
          from tree_inv_chain[OF t disjI1[OF cv] refl, of "[]"] obtain w where
            w: "walk_from_to g1 s c w" "length w = Suc (gdepth g1 c)" by auto
          then have "w \<noteq> []" by auto
          then have "walk_from_to g1 s v (w @ [v])"
            using w(1) a \<open>u = c\<close> by (simp add: walk_from_to_def is_walk_snoc)
          from a6[OF True this] w(2) \<open>u = c\<close> True show ?thesis by simp
        next
          case False
          with nI vN a have "\<not> enat T < gcost g1 v" using Tc by (simp add: I_def improved_def)
          then have le: "gcost g1 v \<le> enat T" by simp
          then have "gcost g1 v \<noteq> \<infinity>" by (cases "gcost g1 v") auto
          with inf[of v] False have r: "v \<in> set rest" by blast
          with fin[of v] le have "gdepth g1 v \<le> T" by simp
          with r \<open>u = c\<close> show ?thesis by (simp add: T_def)
        qed
      qed
      with R2[of v] dv du show ?thesis by auto
    qed
  qed
qed

subsection \<open>What BFS has established when it returns\<close>

lemma walk_from_start: "walk_from_to g s t w \<Longrightarrow> \<exists>w'. w = s # w' \<and> is_walk g (s # w') \<and> last (s # w') = t"
  by (cases w) (auto simp: walk_from_to_def)

lemma bfs_exit_tree: "bfs_exit s e (tr, ex, g') \<Longrightarrow> \<exists>F d. tree_inv g' s F d"
  unfolding bfs_exit_def frontier_inv_def by auto

lemma bfs_exit_trace:
  assumes "bfs_exit s e (tr, ex, g')"
  shows "e \<in> set tr \<longleftrightarrow> ex = ReachedEnd"
proof -
  from assms obtain d q0 tr0 where inv: "frontier_inv g' s e d q0 tr0"
    and c: "ex = FrontierEmpty \<and> q0 = [] \<and> tr = tr0 \<or> ex = ReachedEnd \<and> tr = tr0 @ [e]"
    unfolding bfs_exit_def by auto
  from inv have "e \<notin> set tr0" by (simp add: frontier_inv_def)
  with c show ?thesis by auto
qed

lemma bfs_exit_found:
  assumes "bfs_exit s e (tr, ReachedEnd, g')"
  shows "visited g' e \<and>
         (\<exists>p. reconstruct g' (Some e) [] = Some p \<and> walk_from_to g' s e p
            \<and> (\<forall>w. walk_from_to g' s e w \<longrightarrow> length p \<le> length w)
            \<and> (\<forall>w t. walk_from_to g' s t w \<and> length w < length p \<longrightarrow> t \<in> set tr))"
proof -
  from assms obtain d q0 tr0 where inv: "frontier_inv g' s e d q0 tr0"
    and ord: "bfs_order g' d q0 tr0" and q0: "q0 \<noteq> []" "hd q0 = e" and tr: "tr = tr0 @ [e]"
    unfolding bfs_exit_def by auto
  from inv have t: "tree_inv g' s q0 d" and vis: "set (tr0 @ q0) = {v. visited g' v}"
    unfolding frontier_inv_def by blast+
  have eq: "e \<in> set q0" using q0 by (cases q0) auto
  then have ve: "visited g' e" using vis by auto
  have sv: "visited g' s" "d s = 0" using t vis unfolding tree_inv_def by auto
  from tree_inv_chain[OF t disjI1[OF ve] refl, of "[]"] obtain p where
    p: "reconstruct g' (Some e) [] = Some p" "walk_from_to g' s e p" "length p = Suc (d e)"
    by auto
  have hdmin: "v \<in> set q0 \<Longrightarrow> d e \<le> d v" for v
    using ord q0 by (cases q0) (auto simp: bfs_order_def)
  have bound: "visited g' t \<and> d t \<le> length w'"
    if "is_walk g' (s # w')" "last (s # w') = t" "length w' \<le> d e" for w' t
    using bfs_walk_bound[OF inv ord q0(1) that(1) sv(1)] that(2,3) sv(2) q0(2) by simp
  have opt: "length p \<le> length w" if "walk_from_to g' s e w" for w
  proof (rule ccontr)
    assume "\<not> length p \<le> length w"
    moreover from walk_from_start[OF that] obtain w' where
      w': "w = s # w'" "is_walk g' (s # w')" "last (s # w') = e" by blast
    ultimately have "length w' < d e" using p(3) by simp
    with bound[OF w'(2,3)] show False by simp
  qed
  have near: "t \<in> set tr" if "walk_from_to g' s t w" "length w < length p" for w t
  proof -
    from walk_from_start[OF that(1)] obtain w' where
      w': "w = s # w'" "is_walk g' (s # w')" "last (s # w') = t" by blast
    then have l: "length w' < d e" using that(2) p(3) by simp
    with bound[OF w'(2,3)] have vt: "visited g' t" "d t < d e" by simp_all
    then have "t \<notin> set q0" using hdmin[of t] by auto
    with vt(1) vis have "t \<in> set tr0" by auto
    then show ?thesis using tr by simp
  qed
  from ve p(1,2) opt near show ?thesis by blast
qed

lemma bfs_exit_empty:
  assumes "bfs_exit s e (tr, FrontierEmpty, g')"
  shows "\<not> visited g' e \<and> (\<forall>w t. walk_from_to g' s t w \<longrightarrow> t \<in> set tr)"
proof -
  from assms obtain d where inv: "frontier_inv g' s e d [] tr" and ord: "bfs_order g' d [] tr"
    unfolding bfs_exit_def by auto
  from inv have t: "tree_inv g' s [] d" and vis: "set (tr @ []) = {v. visited g' v}"
    and e: "e \<notin> set tr"
    unfolding frontier_inv_def by blast+
  have sv: "visited g' s" using t unfolding tree_inv_def by auto
  have "t \<in> set tr" if "walk_from_to g' s t w" for w t
  proof -
    from walk_from_start[OF that] obtain w' where
      w': "is_walk g' (s # w')" "last (s # w') = t" by blast
    from bfs_walk_closed[OF inv ord w'(1) sv] w'(2) vis show ?thesis by simp
  qed
  with e vis show ?thesis by auto
qed

lemma dfs_exit_tree:
  assumes "dfs_loop e g q tr = Some (tr', ex, g')" "frontier_inv g s e d q tr"
  shows "(\<exists>F d. tree_inv g' s F d) \<and> (e \<in> set tr' \<longleftrightarrow> ex = ReachedEnd)"
  using dfs_loop_exit[OF assms] unfolding frontier_inv_def by auto

subsection \<open>What A* has established when it returns\<close>

definition astar_exit :: "pos \<Rightarrow> pos \<Rightarrow> pos list \<times> exit_kind \<times> state \<Rightarrow> bool" where
  "astar_exit s e res =
     ((fst (snd res) = FrontierEmpty \<and> astar_inv (snd (snd res)) s e [] (fst res))
      \<or> (fst (snd res) = ReachedEnd
          \<and> (\<exists>openSet tr0. astar_core (snd (snd res)) s e openSet (fst res)
                \<and> fst res = tr0 @ [e] \<and> e \<notin> set tr0)))"

lemma astar_loop_exit:
  assumes "astar_loop e g openSet tr = Some res"
  shows "astar_inv g s e openSet tr \<Longrightarrow> astar_exit s e res"
  using assms
proof (induction rule: astar_loop_pinduct)
  case (iter loop e g openSet tr res)
  show ?case
  proof (cases "sort_key (fcost g) openSet")
    case Nil
    then have "openSet = []" using length_sort[of "fcost g" openSet] by simp
    moreover from Nil iter.hyps have "res = (tr, FrontierEmpty, g)" by simp
    ultimately show ?thesis using iter.prems by (simp add: astar_exit_def)
  next
    case (Cons c rest)
    define g1 where "g1 = update_cell c (\<lambda>x. x\<lparr>isVisited := True\<rparr>) g"
    note pop = astar_pop[OF iter.prems Cons g1_def]
    have etr: "e \<notin> set tr" using iter.prems by (simp add: astar_inv_def)
    show ?thesis
    proof (cases "c = e")
      case True
      with Cons pop(1) iter.hyps have "res = (tr @ [e], ReachedEnd, g1)"
        by (simp add: Let_def g1_def)
      with pop(2) True etr show ?thesis unfolding astar_exit_def by auto
    next
      case False
      obtain g2 q2 where nb: "astar_neighbors e c (getNeighbors g1 c) g1 rest = (g2, q2)"
        by (cases "astar_neighbors e c (getNeighbors g1 c) g1 rest")
      with Cons pop(1) False iter.hyps have run: "loop e g2 q2 (tr @ [c]) = Some res"
        by (simp add: Let_def g1_def)
      have cv: "visited g1 c" by (simp add: g1_def)
      have cg: "in_grid g1 c" using pop(5) by (simp add: g1_def)
      have U: "u \<in> set tr \<Longrightarrow> visited g1 u" for u
        using pop(2) unfolding astar_core_def by auto
      note ex = astar_expand[OF pop(2) cv cg pop(3) U nb]
      have "set (tr @ [c]) = {u. visited g2 u}" using ex(1) unfolding astar_core_def by blast
      then have "{u. visited g2 u} = insert c (set tr)" by auto
      with ex have "astar_inv g2 s e q2 (tr @ [c])"
        using etr False by (simp add: astar_inv_def)
      from iter.IH[OF run this] show ?thesis .
    qed
  qed
qed

lemma astar_exit_tree: "astar_exit s e (tr, ex, g') \<Longrightarrow> \<exists>F d. tree_inv g' s F d"
  unfolding astar_exit_def astar_inv_def astar_core_def by auto

lemma astar_exit_trace:
  "astar_exit s e (tr, ex, g') \<Longrightarrow> (e \<in> set tr \<longleftrightarrow> ex = ReachedEnd) \<and> distinct tr"
  unfolding astar_exit_def astar_inv_def astar_core_def by auto

lemma astar_exit_found:
  assumes "astar_exit s e (tr, ReachedEnd, g')"
  shows "visited g' e \<and>
         (\<exists>p. reconstruct g' (Some e) [] = Some p \<and> walk_from_to g' s e p
            \<and> (\<forall>w. walk_from_to g' s e w \<longrightarrow> length p \<le> length w)
            \<and> (\<forall>u \<in> set tr. u = e \<or> (\<exists>w. walk_from_to g' s u w \<and> length w < length p)))"
proof -
  from assms obtain openSet where core: "astar_core g' s e openSet tr" and etr: "e \<in> set tr"
    unfolding astar_exit_def by auto
  from core have t: "tree_inv g' s openSet (gdepth g')"
    and str: "set tr = {v. visited g' v}"
    and a6: "\<And>u w. visited g' u \<Longrightarrow> walk_from_to g' s u w \<Longrightarrow> Suc (gdepth g' u) \<le> length w"
    and a7: "\<And>u w. visited g' u \<Longrightarrow> walk_from_to g' s e w
               \<Longrightarrow> Suc (gdepth g' u + heuristic u e) \<le> length w"
    unfolding astar_core_def by blast+
  have ve: "visited g' e" using etr str by simp
  from tree_inv_chain[OF t disjI1[OF ve] refl, of "[]"] obtain p where
    p: "reconstruct g' (Some e) [] = Some p" "walk_from_to g' s e p" "length p = Suc (gdepth g' e)"
    by auto
  have opt: "\<forall>w. walk_from_to g' s e w \<longrightarrow> length p \<le> length w"
    using a6[OF ve] p(3) by simp
  have near: "u = e \<or> (\<exists>w. walk_from_to g' s u w \<and> length w < length p)" if "u \<in> set tr" for u
  proof (cases "u = e")
    case False
    have vu: "visited g' u" using that str by simp
    from tree_inv_chain[OF t disjI1[OF vu] refl, of "[]"] obtain w where
      w: "walk_from_to g' s u w" "length w = Suc (gdepth g' u)" by auto
    have "0 < heuristic u e" using False heuristic_zero[of u e] by simp
    with a7[OF vu p(2)] w(2) have "length w < length p" by simp
    with w(1) show ?thesis by blast
  qed simp
  from ve p(1,2) opt near show ?thesis by blast
qed

lemma astar_exit_empty:
  assumes "astar_exit s e (tr, FrontierEmpty, g')"
  shows "\<not> visited g' e \<and> (\<forall>w. \<not> walk_from_to g' s e w)
           \<and> (\<forall>u \<in> set tr. \<exists>w. walk_from_to g' s u w)"
proof -
  from assms have inv: "astar_inv g' s e [] tr" unfolding astar_exit_def by simp
  then have core: "astar_core g' s e [] tr" and etr: "e \<notin> set tr"
    and ex: "expanded g' [] {u. visited g' u}" by (simp_all add: astar_inv_def)
  from core have t: "tree_inv g' s [] (gdepth g')" and str: "set tr = {v. visited g' v}"
    unfolding astar_core_def by blast+
  have ve: "\<not> visited g' e" using etr str by simp
  have sv: "visited g' s" using t unfolding tree_inv_def by auto
  have nowalk: "\<not> walk_from_to g' s e w" for w
  proof
    assume "walk_from_to g' s e w"
    from walk_from_start[OF this] obtain w' where
      w': "is_walk g' (s # w')" "last (s # w') = e" by blast
    from astar_open_bound[OF core ex w'(1) sv] w'(2) ve show False by simp
  qed
  have "\<exists>w. walk_from_to g' s u w" if "u \<in> set tr" for u
  proof -
    have "visited g' u" using that str by simp
    from tree_inv_chain[OF t disjI1[OF this] refl, of "[]"] show ?thesis by auto
  qed
  with ve nowalk show ?thesis by blast
qed

subsection \<open>A run from a reset grid\<close>

text \<open>The grid as \<^verbatim>\<open>resetVisuals\<close> leaves it.\<close>

definition fresh :: "state \<Rightarrow> bool" where
  "fresh g = (\<forall>v. \<not> visited g v \<and> prev g v = None \<and> gcost g v = \<infinity>)"

lemma fresh_resetVisuals: "fresh (resetVisuals g)"
  by (simp add: fresh_def)

lemma start_inv:
  assumes f: "fresh g" and s: "in_grid g s"
  shows "frontier_inv (update_cell s (\<lambda>x. x\<lparr>isVisited := True\<rparr>) g) s e (\<lambda>_. 0) [s] []"
proof -
  define g1 where "g1 = update_cell s (\<lambda>x. x\<lparr>isVisited := True\<rparr>) g"
  have v: "visited g1 v \<longleftrightarrow> v = s" for v using f by (simp add: fresh_def g1_def)
  have p: "prev g1 v = None" for v using f by (simp add: fresh_def g1_def)
  have s1: "in_grid g1 s" using s by (simp add: g1_def)
  have "tree_inv g1 s [s] (\<lambda>_. 0)"
    unfolding tree_inv_def using s1 v p by simp
  moreover have "set ([] @ [s]) = {v. visited g1 v}" using v by auto
  ultimately have "frontier_inv g1 s e (\<lambda>_. 0) [s] []" unfolding frontier_inv_def by simp
  then show ?thesis unfolding g1_def .
qed

lemma bfs_outcome:
  assumes "in_grid g s"
  obtains tr ex g' where "search BFS (resetVisuals g) s e = Some (tr, ex, g')"
    "same_walls g g'" "bfs_exit s e (tr, ex, g')"
proof -
  let ?g = "resetVisuals g"
  let ?g1 = "update_cell s (\<lambda>x. x\<lparr>isVisited := True\<rparr>) ?g"
  have s: "in_grid ?g s" using assms by simp
  have "bfs_loop e ?g1 [s] [] \<noteq> None" using s by (intro bfs_loop_terminates) simp
  then obtain res where r: "bfs_loop e ?g1 [s] [] = Some res" by auto
  have ord: "bfs_order ?g1 (\<lambda>_. 0) [s] []" by (simp add: bfs_order_def)
  note ex = bfs_loop_exit[OF r start_inv[OF fresh_resetVisuals s] ord]
  obtain tr ex g' where res: "res = (tr, ex, g')" by (cases res)
  have run: "search BFS ?g s e = Some (tr, ex, g')" using r res by (simp add: search_def bfs_def)
  from search_frame[OF run] have "same_walls g g'"
    by (rule same_walls_trans[OF same_walls_resetVisuals])
  with run ex res show ?thesis by (intro that) simp_all
qed

lemma dfs_outcome:
  assumes "in_grid g s"
  obtains tr ex g' d q0 tr0 where "search DFS (resetVisuals g) s e = Some (tr, ex, g')"
    "same_walls g g'" "frontier_inv g' s e d q0 tr0"
    "ex = FrontierEmpty \<and> q0 = [] \<and> tr = tr0 \<or> ex = ReachedEnd \<and> e \<in> set q0 \<and> tr = tr0 @ [e]"
proof -
  let ?g = "resetVisuals g"
  let ?g1 = "update_cell s (\<lambda>x. x\<lparr>isVisited := True\<rparr>) ?g"
  have s: "in_grid ?g s" using assms by simp
  have "dfs_loop e ?g1 [s] [] \<noteq> None" using s by (intro dfs_loop_terminates) simp
  then obtain res where r: "dfs_loop e ?g1 [s] [] = Some res" by auto
  obtain tr ex g' where res: "res = (tr, ex, g')" by (cases res)
  from dfs_loop_exit[OF r start_inv[OF fresh_resetVisuals s]] res
  obtain d q0 tr0 where inv: "frontier_inv g' s e d q0 tr0"
    and c: "ex = FrontierEmpty \<and> q0 = [] \<and> tr = tr0 \<or> ex = ReachedEnd \<and> e \<in> set q0 \<and> tr = tr0 @ [e]"
    by auto
  have run: "search DFS ?g s e = Some (tr, ex, g')" using r res by (simp add: search_def dfs_def)
  from search_frame[OF run] have "same_walls g g'"
    by (rule same_walls_trans[OF same_walls_resetVisuals])
  with run inv c show ?thesis by (intro that)
qed

lemma astar_start_inv:
  assumes f: "fresh g" and s: "in_grid g s"
  shows "astar_inv (update_cell s (\<lambda>x. x\<lparr>gCost := 0, fCost := enat (heuristic s e)\<rparr>) g) s e [s] []"
proof -
  define g1 where "g1 = update_cell s (\<lambda>x. x\<lparr>gCost := 0, fCost := enat (heuristic s e)\<rparr>) g"
  have v: "\<not> visited g1 v" for v using f by (simp add: fresh_def g1_def)
  have p: "prev g1 v = None" for v using f by (simp add: fresh_def g1_def)
  have gs: "gcost g1 s = enat 0" "fcost g1 s = enat (heuristic s e)"
    by (simp_all add: g1_def zero_enat_def)
  have d0: "gdepth g1 s = 0" by (simp add: gdepth_def gs)
  have gv: "v \<noteq> s \<Longrightarrow> gcost g1 v = \<infinity>" for v using f by (simp add: fresh_def g1_def)
  have s1: "in_grid g1 s" using s by (simp add: g1_def)
  have t: "tree_inv g1 s [s] (gdepth g1)"
    unfolding tree_inv_def using s1 v p d0 by simp
  have "astar_core g1 s e [s] []"
    unfolding astar_core_def using t v gs d0 gv by simp
  moreover have "expanded g1 [s] {u. visited g1 u}" using v by (simp add: expanded_def)
  ultimately have "astar_inv g1 s e [s] []" by (simp add: astar_inv_def)
  then show ?thesis unfolding g1_def .
qed

lemma astar_outcome:
  assumes "in_grid g s"
  obtains tr ex g' where "search AStar (resetVisuals g) s e = Some (tr, ex, g')"
    "same_walls g g'" "astar_exit s e (tr, ex, g')"
proof -
  let ?g = "resetVisuals g"
  let ?g1 = "update_cell s (\<lambda>x. x\<lparr>gCost := 0, fCost := enat (heuristic s e)\<rparr>) ?g"
  have s: "in_grid ?g s" using assms by simp
  have "astar_loop e ?g1 [s] [] \<noteq> None" using s by (intro astar_loop_terminates) simp
  then obtain res where r: "astar_loop e ?g1 [s] [] = Some res" by auto
  note ex = astar_loop_exit[OF r astar_start_inv[OF fresh_resetVisuals s]]
  obtain tr ex g' where res: "res = (tr, ex, g')" by (cases res)
  have run: "search AStar ?g s e = Some (tr, ex, g')" using r res by (simp add: search_def astar_def)
  from search_frame[OF run] have "same_walls g g'"
    by (rule same_walls_trans[OF same_walls_resetVisuals])
  with run ex res show ?thesis by (intro that) simp_all
qed

text \<open>What all three searches share: the backpointers form a tree, and the end cell is
  in the trace, and visited, exactly when the loop left through its early return.\<close>

lemma exit_kind_cases: "ex = FrontierEmpty \<or> ex = ReachedEnd"
  by (cases ex) simp_all

lemma search_settled:
  assumes "in_grid g s"
  obtains tr ex g' F d where "search a (resetVisuals g) s e = Some (tr, ex, g')"
    "same_walls g g'" "tree_inv g' s F d"
    "e \<in> set tr \<longleftrightarrow> ex = ReachedEnd" "visited g' e \<longleftrightarrow> ex = ReachedEnd"
proof (cases a)
  case BFS
  from bfs_outcome[OF assms, of e] obtain tr ex g' where
    r: "search BFS (resetVisuals g) s e = Some (tr, ex, g')" "same_walls g g'"
       "bfs_exit s e (tr, ex, g')" by blast
  from bfs_exit_tree[OF r(3)] obtain F d where t: "tree_inv g' s F d" by blast
  have "visited g' e \<longleftrightarrow> ex = ReachedEnd"
    using bfs_exit_found[of s e tr g'] bfs_exit_empty[of s e tr g'] r(3) exit_kind_cases[of ex]
    by auto
  with r t bfs_exit_trace[OF r(3)] BFS show ?thesis by (intro that[of tr ex g' F d]) simp_all
next
  case DFS
  from dfs_outcome[OF assms, of e] obtain tr ex g' d q0 tr0 where
    r: "search DFS (resetVisuals g) s e = Some (tr, ex, g')" "same_walls g g'"
    and inv: "frontier_inv g' s e d q0 tr0"
    and c: "ex = FrontierEmpty \<and> q0 = [] \<and> tr = tr0 \<or> ex = ReachedEnd \<and> e \<in> set q0 \<and> tr = tr0 @ [e]"
    by blast
  from inv have t: "tree_inv g' s q0 d" and vis: "set (tr0 @ q0) = {v. visited g' v}"
    and e: "e \<notin> set tr0" unfolding frontier_inv_def by blast+
  from c e have tr: "e \<in> set tr \<longleftrightarrow> ex = ReachedEnd" by auto
  from c e vis have "visited g' e \<longleftrightarrow> ex = ReachedEnd" by auto
  with r t tr DFS show ?thesis by (intro that[of tr ex g' q0 d]) simp_all
next
  case AStar
  from astar_outcome[OF assms, of e] obtain tr ex g' where
    r: "search AStar (resetVisuals g) s e = Some (tr, ex, g')" "same_walls g g'"
       "astar_exit s e (tr, ex, g')" by blast
  from astar_exit_tree[OF r(3)] obtain F d where t: "tree_inv g' s F d" by blast
  have "visited g' e \<longleftrightarrow> ex = ReachedEnd"
    using astar_exit_found[of s e tr g'] astar_exit_empty[of s e tr g'] r(3) exit_kind_cases[of ex]
    by auto
  with r t astar_exit_trace[OF r(3)] AStar show ?thesis by (intro that[of tr ex g' F d]) simp_all
qed

text \<open>The report of a run whose search and path reconstruction have returned.\<close>

lemma visualize_run:
  assumes "in_grid g (startPos g)" "in_grid g (endPos g)"
    and run: "search a (resetVisuals g) (startPos g) (endPos g) = Some (tr, ex, g')"
    and sw: "same_walls g g'"
    and path: "reconstruct g' (Some (endPos g)) [] = Some path"
  shows "visualize a g = Some (Inr (tr, ex,
           \<lparr>visitedCount = length tr,
            pathLen = (if 1 \<le> length path \<and> hd path = startPos g \<and> \<not> wall g (endPos g)
                          \<and> visited g' (endPos g) then length path else 0),
            success = (1 \<le> length path \<and> hd path = startPos g \<and> \<not> wall g (endPos g)
                          \<and> visited g' (endPos g))\<rparr>, g'))"
proof -
  have "startPos g' = startPos g" using sw by (simp add: same_walls_def)
  moreover have "wall g' (endPos g) = wall g (endPos g)" using sw by (rule same_walls_wall)
  ultimately have "animate g' tr (endPos g) = Some
           \<lparr>visitedCount = length tr,
            pathLen = (if 1 \<le> length path \<and> hd path = startPos g \<and> \<not> wall g (endPos g)
                          \<and> visited g' (endPos g) then length path else 0),
            success = (1 \<le> length path \<and> hd path = startPos g \<and> \<not> wall g (endPos g)
                          \<and> visited g' (endPos g))\<rparr>"
    using path by (simp add: animate_def Let_def)
  with assms(1,2) run show ?thesis by (simp add: visualize_def Let_def)
qed

subsection \<open>The runs of BFS and A* compared\<close>

text \<open>The number of moves of a walk.\<close>

definition steps :: "pos list \<Rightarrow> nat" where
  "steps w = length w - 1"

text \<open>
  A grid of 7 rows and 9 columns with start \<open>(5, 5)\<close>, end \<open>(5, 8)\<close> and one wall
  between them, at \<open>(5, 6)\<close>.
\<close>

definition example_grid :: state where
  "example_grid = update_cell (5, 6) (\<lambda>x. x\<lparr>isWall := True\<rparr>) (calculateGridSize 9 7 script_start)"

lemma is_walk_hd_in_grid: "is_walk g w \<Longrightarrow> in_grid g (hd w)"
  by (induction g w rule: is_walk.induct) auto

lemma walk_from_to_ends:
  assumes "walk_from_to g s t w"
  shows "in_grid g s" "in_grid g t" "w \<noteq> []" "hd w = s"
  using assms is_walk_hd_in_grid[of g w] is_walk_last_in_grid[of g w]
  by (auto simp: walk_from_to_def)

lemma bfs_summary:
  assumes "in_grid g s"
  obtains tr ex g' p where
    "search BFS (resetVisuals g) s e = Some (tr, ex, g')" "same_walls g g'"
    "reconstruct g' (Some e) [] = Some p" "p \<noteq> []"
    "ex = ReachedEnd \<longleftrightarrow> (\<exists>w. walk_from_to g s e w)"
    "visited g' e \<longleftrightarrow> (\<exists>w. walk_from_to g s e w)"
    "e \<in> set tr \<longleftrightarrow> (\<exists>w. walk_from_to g s e w)"
    "(\<exists>w. walk_from_to g s e w) \<Longrightarrow> walk_from_to g s e p"
    "\<And>w. walk_from_to g s e w \<Longrightarrow> length p \<le> length w"
    "\<And>w t. walk_from_to g s t w \<Longrightarrow> (\<forall>w'. walk_from_to g s e w' \<longrightarrow> length w < length w')
        \<Longrightarrow> t \<in> set tr"
proof -
  from bfs_outcome[OF assms, of e] obtain tr ex g' where
    r: "search BFS (resetVisuals g) s e = Some (tr, ex, g')" "same_walls g g'"
    and x: "bfs_exit s e (tr, ex, g')" by blast
  note W = walk_from_to_same_walls[OF r(2)]
  from bfs_exit_tree[OF x] obtain F d where t: "tree_inv g' s F d" by blast
  from tree_inv_reconstruct_total[OF t, of e] obtain p where
    p: "reconstruct g' (Some e) [] = Some p" "p \<noteq> []" by blast
  note tr = bfs_exit_trace[OF x]
  show ?thesis
  proof (cases ex)
    case ReachedEnd
    from bfs_exit_found[OF x[unfolded ReachedEnd]] p(1) have
      f: "visited g' e" "walk_from_to g s e p"
         "\<And>w. walk_from_to g s e w \<Longrightarrow> length p \<le> length w"
         "\<And>w t. walk_from_to g s t w \<Longrightarrow> length w < length p \<Longrightarrow> t \<in> set tr"
      unfolding W by auto
    have R: "\<exists>w. walk_from_to g s e w" using f(2) by blast
    have n: "t \<in> set tr"
      if "walk_from_to g s t w" "\<forall>w'. walk_from_to g s e w' \<longrightarrow> length w < length w'" for w t
      using f(4)[OF that(1)] that(2) f(2) by blast
    have c: "ex = ReachedEnd \<longleftrightarrow> (\<exists>w. walk_from_to g s e w)"
      "visited g' e \<longleftrightarrow> (\<exists>w. walk_from_to g s e w)"
      "e \<in> set tr \<longleftrightarrow> (\<exists>w. walk_from_to g s e w)"
      using ReachedEnd R f(1) tr by simp_all
    show ?thesis
      by (rule that[of tr ex g' p]) (use r p c f(2) f(3) n in blast)+
  next
    case FrontierEmpty
    from bfs_exit_empty[OF x[unfolded FrontierEmpty]] have
      f: "\<not> visited g' e" "\<And>w t. walk_from_to g s t w \<Longrightarrow> t \<in> set tr"
      unfolding W by auto
    have e: "e \<notin> set tr" using tr FrontierEmpty by simp
    have R: "\<not> (\<exists>w. walk_from_to g s e w)" using f(2) e by blast
    have c: "ex = ReachedEnd \<longleftrightarrow> (\<exists>w. walk_from_to g s e w)"
      "visited g' e \<longleftrightarrow> (\<exists>w. walk_from_to g s e w)"
      "e \<in> set tr \<longleftrightarrow> (\<exists>w. walk_from_to g s e w)"
      using FrontierEmpty R f(1) e by simp_all
    have c2: "(\<exists>w. walk_from_to g s e w) \<Longrightarrow> walk_from_to g s e p"
      "\<And>w. walk_from_to g s e w \<Longrightarrow> length p \<le> length w"
      "\<And>w t. walk_from_to g s t w \<Longrightarrow> (\<forall>w'. walk_from_to g s e w' \<longrightarrow> length w < length w')
        \<Longrightarrow> t \<in> set tr"
      using R f(2) by blast+
    show ?thesis
      by (rule that[of tr ex g' p]) (use r p c c2 in blast)+
  qed
qed

lemma astar_summary:
  assumes "in_grid g s"
  obtains tr ex g' p where
    "search AStar (resetVisuals g) s e = Some (tr, ex, g')" "same_walls g g'"
    "reconstruct g' (Some e) [] = Some p" "p \<noteq> []"
    "ex = ReachedEnd \<longleftrightarrow> (\<exists>w. walk_from_to g s e w)"
    "visited g' e \<longleftrightarrow> (\<exists>w. walk_from_to g s e w)"
    "e \<in> set tr \<longleftrightarrow> (\<exists>w. walk_from_to g s e w)"
    "(\<exists>w. walk_from_to g s e w) \<Longrightarrow> walk_from_to g s e p"
    "\<And>w. walk_from_to g s e w \<Longrightarrow> length p \<le> length w"
    "distinct tr"
    "\<And>u. u \<in> set tr \<Longrightarrow> u = e \<or>
        (\<exists>w. walk_from_to g s u w \<and> (\<forall>w'. walk_from_to g s e w' \<longrightarrow> length w < length w'))"
proof -
  from astar_outcome[OF assms, of e] obtain tr ex g' where
    r: "search AStar (resetVisuals g) s e = Some (tr, ex, g')" "same_walls g g'"
    and x: "astar_exit s e (tr, ex, g')" by blast
  note W = walk_from_to_same_walls[OF r(2)]
  from astar_exit_tree[OF x] obtain F d where t: "tree_inv g' s F d" by blast
  from tree_inv_reconstruct_total[OF t, of e] obtain p where
    p: "reconstruct g' (Some e) [] = Some p" "p \<noteq> []" by blast
  from astar_exit_trace[OF x] have tr: "e \<in> set tr \<longleftrightarrow> ex = ReachedEnd" and dt: "distinct tr"
    by blast+
  show ?thesis
  proof (cases ex)
    case ReachedEnd
    from astar_exit_found[OF x[unfolded ReachedEnd]] p(1) have
      f: "visited g' e" "walk_from_to g s e p"
         "\<And>w. walk_from_to g s e w \<Longrightarrow> length p \<le> length w"
         "\<And>u. u \<in> set tr \<Longrightarrow> u = e \<or> (\<exists>w. walk_from_to g s u w \<and> length w < length p)"
      unfolding W by auto
    have R: "\<exists>w. walk_from_to g s e w" using f(2) by blast
    have n: "u = e \<or>
        (\<exists>w. walk_from_to g s u w \<and> (\<forall>w'. walk_from_to g s e w' \<longrightarrow> length w < length w'))"
      if "u \<in> set tr" for u
    proof (cases "u = e")
      case False
      with f(4)[OF that] obtain w where w: "walk_from_to g s u w" "length w < length p" by blast
      have "length w < length w'" if "walk_from_to g s e w'" for w'
        using f(3)[OF that] w(2) by simp
      with w(1) show ?thesis by blast
    qed simp
    have c: "ex = ReachedEnd \<longleftrightarrow> (\<exists>w. walk_from_to g s e w)"
      "visited g' e \<longleftrightarrow> (\<exists>w. walk_from_to g s e w)"
      "e \<in> set tr \<longleftrightarrow> (\<exists>w. walk_from_to g s e w)"
      using ReachedEnd R f(1) tr by simp_all
    show ?thesis
      by (rule that[of tr ex g' p]) (use r p c f(2) f(3) dt n in blast)+
  next
    case FrontierEmpty
    from astar_exit_empty[OF x[unfolded FrontierEmpty]] have
      f: "\<not> visited g' e" "\<And>w. \<not> walk_from_to g s e w"
         "\<And>u. u \<in> set tr \<Longrightarrow> \<exists>w. walk_from_to g s u w"
      unfolding W by auto
    have e: "e \<notin> set tr" using tr FrontierEmpty by simp
    have n: "u = e \<or>
        (\<exists>w. walk_from_to g s u w \<and> (\<forall>w'. walk_from_to g s e w' \<longrightarrow> length w < length w'))"
      if "u \<in> set tr" for u
      using f(3)[OF that] f(2) by blast
    have c: "ex = ReachedEnd \<longleftrightarrow> (\<exists>w. walk_from_to g s e w)"
      "visited g' e \<longleftrightarrow> (\<exists>w. walk_from_to g s e w)"
      "e \<in> set tr \<longleftrightarrow> (\<exists>w. walk_from_to g s e w)"
      using FrontierEmpty f(1,2) e by simp_all
    have c2: "(\<exists>w. walk_from_to g s e w) \<Longrightarrow> walk_from_to g s e p"
      "\<And>w. walk_from_to g s e w \<Longrightarrow> length p \<le> length w"
      using f(2) by blast+
    show ?thesis
      by (rule that[of tr ex g' p]) (use r p c c2 dt n in blast)+
  qed
qed

lemma both_runs:
  assumes s: "in_grid g (startPos g)" and e: "in_grid g (endPos g)"
  obtains trB exB repB gB trA exA repA gA where
    "visualize BFS g = Some (Inr (trB, exB, repB, gB))"
    "visualize AStar g = Some (Inr (trA, exA, repA, gA))"
    "success repB = ((\<exists>w. walk_from_to g (startPos g) (endPos g) w) \<and> \<not> wall g (endPos g))"
    "success repA = ((\<exists>w. walk_from_to g (startPos g) (endPos g) w) \<and> \<not> wall g (endPos g))"
    "pathLen repA = pathLen repB"
    "visitedCount repB = length trB" "visitedCount repA = length trA"
    "distinct trA" "set trA \<subseteq> set trB"
proof (rule bfs_summary[OF s, of "endPos g"], rule astar_summary[OF s, of "endPos g"])
  let ?s = "startPos g" and ?e = "endPos g"
  let ?R = "\<exists>w. walk_from_to g ?s ?e w"
  fix trB exB gB pB trA exA gA pA
  assume B: "search BFS (resetVisuals g) ?s ?e = Some (trB, exB, gB)" "same_walls g gB"
       "reconstruct gB (Some ?e) [] = Some pB" "pB \<noteq> []"
       "exB = ReachedEnd \<longleftrightarrow> ?R"
       "visited gB ?e \<longleftrightarrow> ?R" "?e \<in> set trB \<longleftrightarrow> ?R"
       "?R \<Longrightarrow> walk_from_to g ?s ?e pB"
       "\<And>w. walk_from_to g ?s ?e w \<Longrightarrow> length pB \<le> length w"
       "\<And>w t. walk_from_to g ?s t w \<Longrightarrow> (\<forall>w'. walk_from_to g ?s ?e w' \<longrightarrow> length w < length w')
          \<Longrightarrow> t \<in> set trB"
  assume A: "search AStar (resetVisuals g) ?s ?e = Some (trA, exA, gA)" "same_walls g gA"
       "reconstruct gA (Some ?e) [] = Some pA" "pA \<noteq> []"
       "exA = ReachedEnd \<longleftrightarrow> ?R"
       "visited gA ?e \<longleftrightarrow> ?R" "?e \<in> set trA \<longleftrightarrow> ?R"
       "?R \<Longrightarrow> walk_from_to g ?s ?e pA"
       "\<And>w. walk_from_to g ?s ?e w \<Longrightarrow> length pA \<le> length w"
       "distinct trA"
       "\<And>u. u \<in> set trA \<Longrightarrow> u = ?e \<or>
          (\<exists>w. walk_from_to g ?s u w \<and> (\<forall>w'. walk_from_to g ?s ?e w' \<longrightarrow> length w < length w'))"
  let ?okB = "1 \<le> length pB \<and> hd pB = ?s \<and> \<not> wall g ?e \<and> visited gB ?e"
  let ?okA = "1 \<le> length pA \<and> hd pA = ?s \<and> \<not> wall g ?e \<and> visited gA ?e"
  note vB = visualize_run[OF s e B(1,2,3)]
  note vA = visualize_run[OF s e A(1,2,3)]
  have hB: "?R \<Longrightarrow> hd pB = ?s" using B(8) by (simp add: walk_from_to_def)
  have hA: "?R \<Longrightarrow> hd pA = ?s" using A(8) by (simp add: walk_from_to_def)
  have lB: "1 \<le> length pB" using B(4) by (cases pB) simp_all
  have lA: "1 \<le> length pA" using A(4) by (cases pA) simp_all
  have okB: "?okB \<longleftrightarrow> ?R \<and> \<not> wall g ?e" using hB lB B(6) by blast
  have okA: "?okA \<longleftrightarrow> ?R \<and> \<not> wall g ?e" using hA lA A(6) by blast
  have len: "?R \<Longrightarrow> length pA = length pB"
    using A(9)[OF B(8)] B(9)[OF A(8)] by simp
  have sub: "set trA \<subseteq> set trB"
  proof
    fix u assume u: "u \<in> set trA"
    show "u \<in> set trB"
    proof (cases "u = ?e")
      case True
      then show ?thesis using u A(7) B(7) by simp
    next
      case False
      with A(11)[OF u] obtain w where "walk_from_to g ?s u w"
        "\<forall>w'. walk_from_to g ?s ?e w' \<longrightarrow> length w < length w'" by blast
      then show ?thesis by (rule B(10))
    qed
  qed
  show thesis
  proof (rule that[OF vB vA])
    show "success \<lparr>visitedCount = length trB, pathLen = (if ?okB then length pB else 0),
            success = ?okB\<rparr> = (?R \<and> \<not> wall g ?e)" using okB by simp
    show "success \<lparr>visitedCount = length trA, pathLen = (if ?okA then length pA else 0),
            success = ?okA\<rparr> = (?R \<and> \<not> wall g ?e)" using okA by simp
    show "pathLen \<lparr>visitedCount = length trA, pathLen = (if ?okA then length pA else 0),
            success = ?okA\<rparr>
        = pathLen \<lparr>visitedCount = length trB, pathLen = (if ?okB then length pB else 0),
            success = ?okB\<rparr>" using okA okB len by auto
  qed (simp_all add: A(10) sub)
qed


lemma example_grid_facts:
  "ROWS example_grid = 7" "COLS example_grid = 9"
  "startPos example_grid = (5, 5)" "endPos example_grid = (5, 8)"
  "wall example_grid p = (p = (5, 6))"
  by (simp_all add: example_grid_def calculateGridSize_def script_start_def createGrid_def
        wall_def blank_def del: fold_accessors)

lemma example_grid_cells:
  "in_grid example_grid (5, 5)" "in_grid example_grid (5, 8)"
  by (simp_all add: in_grid_def example_grid_facts)

lemma example_grid_walk:
  "walk_from_to example_grid (5, 5) (5, 8) [(5, 5), (4, 5), (4, 6), (4, 7), (4, 8), (5, 8)]"
  by (simp add: walk_from_to_def in_grid_def adjacent_def example_grid_facts)

subsection \<open>BFS finds a shortest path\<close>

text \<open>
  Claim C1. When a walk leads from the start cell to the end cell (walls do not separate
  them) and the end cell is not a wall, the BFS run leaves through its early return, the
  sequence reconstructed from the end cell along the backpointers is a walk from the start
  to the end, and no walk from the start to the end has fewer steps: the number of steps
  of the reconstructed path is the shortest distance under 4-directional moves of cost 1.
  The run is reported successful, with the number of cells of that path as path length
  (one more than the number of steps).
\<close>

theorem bfs_path_shortest:
  assumes "walk_from_to g (startPos g) (endPos g) w0" and "\<not> wall g (endPos g)"
  shows "\<exists>tr rep g' p. visualize BFS g = Some (Inr (tr, ReachedEnd, rep, g'))
           \<and> reconstruct g' (Some (endPos g)) [] = Some p
           \<and> walk_from_to g (startPos g) (endPos g) p
           \<and> (\<forall>w. walk_from_to g (startPos g) (endPos g) w \<longrightarrow> steps p \<le> steps w)
           \<and> success rep \<and> pathLen rep = length p"
proof (rule bfs_summary[OF walk_from_to_ends(1)[OF assms(1)], of "endPos g"])
  let ?s = "startPos g" and ?e = "endPos g"
  let ?R = "\<exists>w. walk_from_to g ?s ?e w"
  fix tr ex g' p
  assume B: "search BFS (resetVisuals g) ?s ?e = Some (tr, ex, g')" "same_walls g g'"
       "reconstruct g' (Some ?e) [] = Some p" "p \<noteq> []"
       "ex = ReachedEnd \<longleftrightarrow> ?R"
       "visited g' ?e \<longleftrightarrow> ?R" "?e \<in> set tr \<longleftrightarrow> ?R"
       "?R \<Longrightarrow> walk_from_to g ?s ?e p"
       "\<And>w. walk_from_to g ?s ?e w \<Longrightarrow> length p \<le> length w"
  have R: ?R using assms(1) by blast
  note ends = walk_from_to_ends[OF assms(1)]
  note v = visualize_run[OF ends(1,2) B(1,2,3)]
  have ex: "ex = ReachedEnd" and vis: "visited g' ?e" and walk: "walk_from_to g ?s ?e p"
    using B(5,6,8) R by blast+
  have hd: "hd p = ?s" "1 \<le> length p" using walk_from_to_ends(3,4)[OF walk] by (simp, cases p) simp_all
  have short: "\<forall>w. walk_from_to g ?s ?e w \<longrightarrow> steps p \<le> steps w"
    using B(9) by (auto simp: steps_def intro: diff_le_mono)
  show ?thesis
    using v B(3) walk short hd vis assms(2) unfolding ex by simp
qed

theorem bfs_path_shortest_witness:
  "walk_from_to example_grid (5, 5) (5, 8) [(5, 5), (4, 5), (4, 6), (4, 7), (4, 8), (5, 8)]
   \<and> \<not> wall example_grid (5, 8)
   \<and> (\<exists>tr rep g' p. visualize BFS example_grid = Some (Inr (tr, ReachedEnd, rep, g'))
           \<and> reconstruct g' (Some (5, 8)) [] = Some p
           \<and> walk_from_to example_grid (5, 5) (5, 8) p
           \<and> steps p \<le> 5
           \<and> success rep \<and> pathLen rep = length p)"
proof -
  let ?W = "[(5, 5), (4, 5), (4, 6), (4, 7), (4, 8), (5, 8)] :: pos list"
  have w: "walk_from_to example_grid (startPos example_grid) (endPos example_grid) ?W"
    using example_grid_walk by (simp add: example_grid_facts)
  have nw: "\<not> wall example_grid (endPos example_grid)" by (simp add: example_grid_facts)
  from bfs_path_shortest[OF w nw] obtain tr rep g' p where
    r: "visualize BFS example_grid = Some (Inr (tr, ReachedEnd, rep, g'))"
       "reconstruct g' (Some (5, 8)) [] = Some p"
       "walk_from_to example_grid (5, 5) (5, 8) p"
       "\<forall>w. walk_from_to example_grid (5, 5) (5, 8) w \<longrightarrow> steps p \<le> steps w"
       "success rep" "pathLen rep = length p"
    unfolding example_grid_facts by blast
  from r(4) example_grid_walk have "steps p \<le> steps ?W" by blast
  then have "steps p \<le> 5" by (simp add: steps_def)
  with r(1,2,3,5,6) example_grid_walk show ?thesis
    by (simp add: example_grid_facts)
qed

subsection \<open>A* agrees with BFS\<close>

text \<open>
  Claim C2. For every grid with the start and the end inside it, whatever the walls are,
  the BFS run and the A* run both return a report, with the same success flag and the
  same path length. Both succeed exactly when some walk leads from the start to the end
  and the end is not a wall, so A* with the Manhattan heuristic is complete, and its path
  is as short as the one of BFS.
\<close>

theorem astar_agrees_with_bfs:
  assumes "in_grid g (startPos g)" "in_grid g (endPos g)"
  shows "\<exists>trB exB repB gB trA exA repA gA.
           visualize BFS g = Some (Inr (trB, exB, repB, gB))
         \<and> visualize AStar g = Some (Inr (trA, exA, repA, gA))
         \<and> success repA = success repB \<and> pathLen repA = pathLen repB
         \<and> success repA = ((\<exists>w. walk_from_to g (startPos g) (endPos g) w) \<and> \<not> wall g (endPos g))"
proof (rule both_runs[OF assms])
  fix trB exB repB gB trA exA repA gA
  assume "visualize BFS g = Some (Inr (trB, exB, repB, gB))"
    "visualize AStar g = Some (Inr (trA, exA, repA, gA))"
    "success repB = ((\<exists>w. walk_from_to g (startPos g) (endPos g) w) \<and> \<not> wall g (endPos g))"
    "success repA = ((\<exists>w. walk_from_to g (startPos g) (endPos g) w) \<and> \<not> wall g (endPos g))"
    "pathLen repA = pathLen repB"
  then show ?thesis by simp
qed

theorem astar_agrees_with_bfs_witness:
  "in_grid example_grid (5, 5) \<and> in_grid example_grid (5, 8)
   \<and> (\<exists>trB exB repB gB trA exA repA gA.
           visualize BFS example_grid = Some (Inr (trB, exB, repB, gB))
         \<and> visualize AStar example_grid = Some (Inr (trA, exA, repA, gA))
         \<and> success repA = success repB \<and> pathLen repA = pathLen repB
         \<and> success repA)"
proof -
  have i: "in_grid example_grid (startPos example_grid)" "in_grid example_grid (endPos example_grid)"
    using example_grid_cells by (simp_all add: example_grid_facts)
  have R: "(\<exists>w. walk_from_to example_grid (5, 5) (5, 8) w) \<and> \<not> wall example_grid (5, 8)"
    using example_grid_walk by (auto simp: example_grid_facts)
  from astar_agrees_with_bfs[OF i] R example_grid_cells show ?thesis
    unfolding example_grid_facts by simp
qed

subsection \<open>A* visits no more cells than BFS\<close>

text \<open>
  Claim C3. For the same grid, start and end, the trace of A* is at most as long as the
  trace of BFS, and so is the visited count of the report: A* puts no cell in its trace
  twice, and every cell of its trace is also in the trace of BFS. The bound does not
  depend on the walls; it holds in particular for every grid with at least one wall.
\<close>

theorem astar_trace_le_bfs:
  assumes "in_grid g (startPos g)" "in_grid g (endPos g)"
  shows "\<exists>trB exB repB gB trA exA repA gA.
           visualize BFS g = Some (Inr (trB, exB, repB, gB))
         \<and> visualize AStar g = Some (Inr (trA, exA, repA, gA))
         \<and> length trA \<le> length trB \<and> visitedCount repA \<le> visitedCount repB
         \<and> distinct trA \<and> set trA \<subseteq> set trB"
proof (rule both_runs[OF assms])
  fix trB exB repB gB trA exA repA gA
  assume r: "visualize BFS g = Some (Inr (trB, exB, repB, gB))"
    "visualize AStar g = Some (Inr (trA, exA, repA, gA))"
    and c: "visitedCount repB = length trB" "visitedCount repA = length trA"
    and d: "distinct trA" and sub: "set trA \<subseteq> set trB"
  have "length trA = card (set trA)" using d by (simp add: distinct_card)
  also have "\<dots> \<le> card (set trB)" using sub by (simp add: card_mono)
  also have "\<dots> \<le> length trB" by (rule card_length)
  finally have "length trA \<le> length trB" .
  with r c d sub show ?thesis by simp
qed

theorem astar_trace_le_bfs_witness:
  "in_grid example_grid (5, 5) \<and> in_grid example_grid (5, 8) \<and> wall example_grid (5, 6)
   \<and> (\<exists>trB exB repB gB trA exA repA gA.
           visualize BFS example_grid = Some (Inr (trB, exB, repB, gB))
         \<and> visualize AStar example_grid = Some (Inr (trA, exA, repA, gA))
         \<and> length trA \<le> length trB \<and> visitedCount repA \<le> visitedCount repB
         \<and> distinct trA \<and> set trA \<subseteq> set trB)"
proof -
  have i: "in_grid example_grid (startPos example_grid)" "in_grid example_grid (endPos example_grid)"
    using example_grid_cells by (simp_all add: example_grid_facts)
  have w: "wall example_grid (5, 6)" by (simp add: example_grid_facts)
  from astar_trace_le_bfs[OF i] w example_grid_cells show ?thesis by simp
qed

subsection \<open>Success and failure of a run\<close>

text \<open>
  Claim C5. For each of the three algorithms, a run on a grid with the start and the end
  inside it returns a report and raises nothing (the grid is reset first). The
  reconstruction from the end cell returns a sequence, and the run is reported successful
  exactly when that sequence starts at the start cell, the end cell is not a wall and the
  end cell is visited. The path length that \<^verbatim>\<open>animate\<close> passes to \<^verbatim>\<open>showResults\<close> is the
  length of the sequence on success and 0 otherwise (on failure \<^verbatim>\<open>showResults\<close> prints
  the sign for infinity in place of that 0). The visited count is the length of the
  trace. The end cell is absent from the trace exactly when the loop ended with an empty
  frontier, which is also exactly when the end cell is not visited; hence, the end cell
  not being a wall, a run fails exactly when the frontier emptied.
\<close>

theorem run_report:
  assumes "in_grid g (startPos g)" "in_grid g (endPos g)"
  shows "\<exists>tr ex rep g' path. visualize a g = Some (Inr (tr, ex, rep, g'))
      \<and> reconstruct g' (Some (endPos g)) [] = Some path
      \<and> success rep = (1 \<le> length path \<and> hd path = startPos g' \<and> \<not> wall g' (endPos g)
                        \<and> visited g' (endPos g))
      \<and> pathLen rep = (if success rep then length path else 0)
      \<and> visitedCount rep = length tr
      \<and> (endPos g \<notin> set tr) = (ex = FrontierEmpty)
      \<and> visited g' (endPos g) = (ex = ReachedEnd)
      \<and> success rep = (ex = ReachedEnd \<and> \<not> wall g (endPos g))"
proof (rule search_settled[OF assms(1), of a "endPos g"])
  let ?s = "startPos g" and ?e = "endPos g"
  fix tr ex g' F d
  assume r: "search a (resetVisuals g) ?s ?e = Some (tr, ex, g')" "same_walls g g'"
    and t: "tree_inv g' ?s F d"
    and tr: "?e \<in> set tr \<longleftrightarrow> ex = ReachedEnd" and vis: "visited g' ?e \<longleftrightarrow> ex = ReachedEnd"
  from tree_inv_reconstruct_total[OF t, of ?e] obtain path where
    p: "reconstruct g' (Some ?e) [] = Some path" "path \<noteq> []"
       "hd path = ?s \<longleftrightarrow> (visited g' ?e \<or> ?e \<in> set F)" by blast
  let ?ok = "1 \<le> length path \<and> hd path = ?s \<and> \<not> wall g ?e \<and> visited g' ?e"
  note v = visualize_run[OF assms r p(1)]
  have sp: "startPos g' = ?s" using r(2) by (simp add: same_walls_def)
  have w: "wall g' ?e = wall g ?e" using r(2) by (rule same_walls_wall)
  have l: "1 \<le> length path" using p(2) by (cases path) simp_all
  have ok: "?ok \<longleftrightarrow> ex = ReachedEnd \<and> \<not> wall g ?e" using p(3) vis l by blast
  have fe: "(?e \<notin> set tr) = (ex = FrontierEmpty)" using tr by (cases ex) simp_all
  show ?thesis
    using v p(1) sp w ok fe vis by simp
qed

theorem run_report_witness:
  "in_grid example_grid (5, 5) \<and> in_grid example_grid (5, 8)
   \<and> (\<exists>tr ex rep g' path. visualize DFS example_grid = Some (Inr (tr, ex, rep, g'))
      \<and> reconstruct g' (Some (5, 8)) [] = Some path
      \<and> success rep = (1 \<le> length path \<and> hd path = startPos g' \<and> \<not> wall g' (5, 8)
                        \<and> visited g' (5, 8))
      \<and> pathLen rep = (if success rep then length path else 0)
      \<and> visitedCount rep = length tr
      \<and> ((5, 8) \<notin> set tr) = (ex = FrontierEmpty)
      \<and> visited g' (5, 8) = (ex = ReachedEnd)
      \<and> success rep = (ex = ReachedEnd))"
proof -
  have i: "in_grid example_grid (startPos example_grid)" "in_grid example_grid (endPos example_grid)"
    using example_grid_cells by (simp_all add: example_grid_facts)
  from run_report[OF i, of DFS] example_grid_cells show ?thesis
    unfolding example_grid_facts by simp
qed

end
